theory Spec2Isabelle
  imports Main "HOL-Library.Word"
begin

unbundle bit_operations_syntax

section \<open>Hash.h: the Murmur3 hash\<close>

type_synonym u8 = "8 word"
type_synonym u32 = "32 word"

text \<open>
  The macro \<^verbatim>\<open>CIRCULAR_SHIFT_LEFT_32_BITS(x, r) ((x << r) | (x >> (32 - r)))\<close>,
  applied to \<^verbatim>\<open>uint32_t\<close> operands only.
\<close>

definition CIRCULAR_SHIFT_LEFT_32_BITS :: "u32 \<Rightarrow> nat \<Rightarrow> u32" where
  "CIRCULAR_SHIFT_LEFT_32_BITS x r = (push_bit r x OR drop_bit (32 - r) x)"

definition kC1 :: u32 where
  "kC1 = 0xcc9e2d51"

definition kC2 :: u32 where
  "kC2 = 0x1b873593"

text \<open>\<^verbatim>\<open>Hash::FMix\<close>: five assignments to the local \<^verbatim>\<open>hash\<close>.\<close>

definition FMix :: "u32 \<Rightarrow> u32" where
  "FMix hash0 =
     (let hash1 = hash0 XOR drop_bit 16 hash0;
          hash2 = hash1 * 0x85ebca6b;
          hash3 = hash2 XOR drop_bit 13 hash2;
          hash4 = hash3 * 0xc2b2ae35
      in hash4 XOR drop_bit 16 hash4)"

text \<open>
  \<^verbatim>\<open>blocks[i]\<close> reads a \<^verbatim>\<open>uint32_t\<close> through a pointer obtained by
  \<^verbatim>\<open>reinterpret_cast\<close> from the byte pointer, so the four bytes are combined in the
  byte order of the machine. The model fixes a little-endian machine: the byte at the
  lowest address is the least significant one. \<open>j\<close> is the index of the block counted
  from the start of the data, that is \<open>nblocks + i\<close> for the source's negative \<open>i\<close>.
\<close>

definition read_block :: "u8 list \<Rightarrow> nat \<Rightarrow> u32" where
  "read_block data j =
     (ucast (data ! (4 * j))
      OR push_bit 8 (ucast (data ! (4 * j + 1)))
      OR push_bit 16 (ucast (data ! (4 * j + 2)))
      OR push_bit 24 (ucast (data ! (4 * j + 3))))"

text \<open>The three statements that mix a word \<^verbatim>\<open>k\<close>, shared by the loop and the tail.\<close>

definition mix_k :: "u32 \<Rightarrow> u32" where
  "mix_k k0 =
     (let k1 = k0 * kC1;
          k2 = CIRCULAR_SHIFT_LEFT_32_BITS k1 15
      in k2 * kC2)"

text \<open>The body of the block loop, for the block \<^verbatim>\<open>k = blocks[i]\<close>.\<close>

definition block_step :: "u32 \<Rightarrow> u32 \<Rightarrow> u32" where
  "block_step k hash0 =
     (let hash1 = hash0 XOR mix_k k;
          hash2 = CIRCULAR_SHIFT_LEFT_32_BITS hash1 13
      in hash2 * 5 + 0xe6546b64)"

text \<open>
  \<^verbatim>\<open>for (int i = -nblocks; i; i++)\<close>. The counter starts at \<open>- nblocks \<le> 0\<close> and
  counts up to 0, so the test \<^verbatim>\<open>i\<close> (non-zero) is \<open>i < 0\<close> on every value it takes.
\<close>

function block_loop :: "u8 list \<Rightarrow> int \<Rightarrow> int \<Rightarrow> u32 \<Rightarrow> u32" where
  "block_loop data nblocks i hash =
     (if i < 0
      then block_loop data nblocks (i + 1) (block_step (read_block data (nat (nblocks + i))) hash)
      else hash)"
  by pat_completeness auto
termination
  by (relation "measure (\<lambda>(data, nblocks, i, hash). nat (- i))") auto

declare block_loop.simps [simp del]

text \<open>
  The \<^verbatim>\<open>switch (len & 3)\<close> with its fall-through cases; \<open>tail\<close> is the data from
  byte \<open>nblocks * 4\<close> on. A \<^verbatim>\<open>uint8_t\<close> shifted left is promoted to \<^verbatim>\<open>int\<close> first,
  and the shifts by 8 and 16 stay inside 32 bits.
\<close>

definition tail_switch :: "u8 list \<Rightarrow> nat \<Rightarrow> u32 \<Rightarrow> u32" where
  "tail_switch tail len hash =
     (let sel = len mod 4;
          k0 = (0 :: u32);
          k1 = (if sel = 3 then k0 XOR push_bit 16 (ucast (tail ! 2)) else k0);
          k2 = (if sel = 3 \<or> sel = 2 then k1 XOR push_bit 8 (ucast (tail ! 1)) else k1);
          k3 = (if sel = 3 \<or> sel = 2 \<or> sel = 1 then k2 XOR ucast (tail ! 0) else k2)
      in if sel = 3 \<or> sel = 2 \<or> sel = 1 then hash XOR mix_k k3 else hash)"

text \<open>
  \<^verbatim>\<open>Hash::Murmur3Hash(key, len, seed)\<close>. The pointer and the length are one byte list,
  \<open>len = length key\<close>. \<^verbatim>\<open>hash ^= len\<close> xors a \<^verbatim>\<open>size_t\<close> into a \<^verbatim>\<open>uint32_t\<close>: the
  low 32 bits of the length. \<^verbatim>\<open>const int nblocks = len / 4\<close> is read as a signed
  32-bit value, and \<^verbatim>\<open>nblocks * 4\<close> is a product of two \<^verbatim>\<open>int\<close>s, which is
  the mathematical product as long as the data is shorter than \<open>2 ^ 31\<close> bytes (beyond
  that the product overflows, which C++ leaves undefined).
\<close>

definition Murmur3Hash :: "u8 list \<Rightarrow> u32 \<Rightarrow> u32" where
  "Murmur3Hash key seed =
     (let len = length key;
          nblocks = sint (word_of_nat (len div 4) :: 32 word);
          hash1 = block_loop key nblocks (- nblocks) seed;
          tail = drop (nat (nblocks * 4)) key;
          hash2 = tail_switch tail len hash1;
          hash3 = hash2 XOR word_of_nat len
      in FMix hash3)"


subsection \<open>The algorithm as the specification words it\<close>

text \<open>
  A second definition, written from the specification's description of the hash and not
  from the code: the input is cut into 4-byte little-endian blocks from the front, each
  block is multiplied by C1, rotated left by 15, multiplied by C2 and xored into the
  running hash, which is rotated left by 13 and replaced by \<open>hash * 5 + 0xe6546b64\<close>;
  the 0 to 3 bytes that remain are mixed in the same way without that last step; the
  result is xored with the length and put through the avalanche finisher.
\<close>

fun spec_le :: "u8 list \<Rightarrow> u32" where
  "spec_le [] = 0"
| "spec_le (b # bs) = ucast b + 256 * spec_le bs"

definition spec_mix :: "u32 \<Rightarrow> u32" where
  "spec_mix k = word_rotl 15 (k * 0xcc9e2d51) * 0x1b873593"

fun spec_blocks :: "u32 \<Rightarrow> u8 list \<Rightarrow> u32" where
  "spec_blocks h (b0 # b1 # b2 # b3 # rest) =
     spec_blocks (word_rotl 13 (h XOR spec_mix (spec_le [b0, b1, b2, b3])) * 5 + 0xe6546b64) rest"
| "spec_blocks h tail = (if tail = [] then h else h XOR spec_mix (spec_le tail))"

definition spec_finish :: "u32 \<Rightarrow> u32" where
  "spec_finish h0 =
     (let h1 = h0 XOR h0 div 2 ^ 16;
          h2 = h1 * 0x85ebca6b;
          h3 = h2 XOR h2 div 2 ^ 13;
          h4 = h3 * 0xc2b2ae35
      in h4 XOR h4 div 2 ^ 16)"

definition murmur3_32_spec :: "u8 list \<Rightarrow> u32 \<Rightarrow> u32" where
  "murmur3_32_spec bytes seed =
     spec_finish (spec_blocks seed bytes XOR word_of_nat (length bytes))"

text \<open>The blocks \<open>lo\<close> to \<open>hi - 1\<close> folded into a hash; used to describe the loop.\<close>

definition blocks_from :: "u8 list \<Rightarrow> nat \<Rightarrow> nat \<Rightarrow> u32 \<Rightarrow> u32" where
  "blocks_from data lo hi h = foldl (\<lambda>h j. block_step (read_block data j) h) h [lo..<hi]"

text \<open>The bytes of a string, as \<^verbatim>\<open>const char*\<close> data without the terminating zero.\<close>

definition bytes_of :: "string \<Rightarrow> u8 list" where
  "bytes_of s = map of_char s"

section \<open>Payload components (second part of EventManager.h)\<close>

text \<open>
  \<^verbatim>\<open>Event*\<close>: the owner pointer of a component. Only its value is stored; no
  code of the component reads through it.
\<close>

datatype Event_ptr = nullptr | Ptr nat

text \<open>
  The abstract class \<^verbatim>\<open>PayloadComponent\<close> with its one concrete subclass
  \<^verbatim>\<open>PayloadTest\<close>, whose only member is \<^verbatim>\<open>m_pOwner\<close>.
\<close>

datatype PayloadComponent = PayloadTest (m_pOwner: Event_ptr)

text \<open>
  The virtual \<^verbatim>\<open>ToString\<close>; \<^verbatim>\<open>PayloadTest::ToString\<close> returns the literal
  \<^verbatim>\<open>"Event Payload Test\n"\<close>, whose last character is a line feed.
\<close>

fun ToString :: "PayloadComponent \<Rightarrow> string" where
  "ToString (PayloadTest pOwner) = ''Event Payload Test'' @ [CHR 0x0A]"

section \<open>Event.h\<close>

text \<open>
  \<^verbatim>\<open>EventManager.h\<close> includes \<^verbatim>\<open>Event.h\<close>, which is not part of the sources
  verified here. What the manager uses of an event, \<^verbatim>\<open>GetType\<close> and
  \<^verbatim>\<open>GetPriorityLevel\<close>, and the payload operations are modelled from the
  specification's data model.
\<close>

type_synonym type_key = nat

record EventIdentity =
  m_key :: u32
  m_priority :: int

record Event =
  m_identity :: EventIdentity
  m_payloads :: "type_key \<rightharpoonup> PayloadComponent"

text \<open>Modelled from the spec: \<^verbatim>\<open>Event::GetType\<close>, the hash key of the identity.\<close>

definition GetType :: "Event \<Rightarrow> u32" where
  "GetType e = m_key (m_identity e)"

text \<open>Modelled from the spec: \<^verbatim>\<open>Event::GetPriorityLevel\<close>, the priority of the identity.\<close>

definition GetPriorityLevel :: "Event \<Rightarrow> int" where
  "GetPriorityLevel e = m_priority (m_identity e)"

text \<open>
  Modelled from the spec: \<^verbatim>\<open>Event::EventType::HashEventString\<close>, the hash of the
  bytes of the name under the default seed. The value of the default seed is in the
  missing header, so it is a parameter.
\<close>

definition HashEventString :: "u32 \<Rightarrow> string \<Rightarrow> u32" where
  "HashEventString default_seed name = Murmur3Hash (bytes_of name) default_seed"

text \<open>
  Modelled from the spec: the constructor \<^verbatim>\<open>Event(EventType(name, priority))\<close>; no
  payload is attached yet.
\<close>

definition make_Event :: "u32 \<Rightarrow> string \<Rightarrow> int \<Rightarrow> Event" where
  "make_Event default_seed name priority =
     \<lparr>m_identity = \<lparr>m_key = HashEventString default_seed name, m_priority = priority\<rparr>,
      m_payloads = Map.empty\<rparr>"

text \<open>
  Modelled from the spec: \<^verbatim>\<open>Event::AddComponent<T>(ctorArgs...)\<close>. \<open>T\<close> is the key of
  the concrete type, \<open>ctor\<close> its constructor with the arguments already supplied; it
  receives the owner, the event's own address \<open>this\<close>. The call fails, returning
  \<open>False\<close> and changing nothing, if a \<open>T\<close> is attached already; otherwise it attaches
  the new component and returns \<open>True\<close>.
\<close>

definition AddComponent ::
  "type_key \<Rightarrow> (Event_ptr \<Rightarrow> PayloadComponent) \<Rightarrow> Event_ptr \<Rightarrow> Event \<Rightarrow> bool \<times> Event" where
  "AddComponent T ctor this e =
     (case m_payloads e T of
        Some existing \<Rightarrow> (False, e)
      | None \<Rightarrow> (True, e\<lparr>m_payloads := (m_payloads e)(T \<mapsto> ctor this)\<rparr>))"

text \<open>
  Modelled from the spec: \<^verbatim>\<open>Event::GetComponent<T>()\<close>, the attached instance or an
  absent value.
\<close>

definition GetComponent :: "type_key \<Rightarrow> Event \<Rightarrow> PayloadComponent option" where
  "GetComponent T e = m_payloads e T"

text \<open>
  A run of \<^verbatim>\<open>AddComponent<T>\<close> calls on one event, each with its own constructor
  arguments: the list of the values returned, and the event at the end.
\<close>

fun AddComponent_calls ::
  "type_key \<Rightarrow> (Event_ptr \<Rightarrow> PayloadComponent) list \<Rightarrow> Event_ptr \<Rightarrow> Event \<Rightarrow> bool list \<times> Event" where
  "AddComponent_calls T [] this e = ([], e)"
| "AddComponent_calls T (ctor # ctors) this e =
     (let (r, e1) = AddComponent T ctor this e;
          (rs, e2) = AddComponent_calls T ctors this e1
      in (r # rs, e2))"


section \<open>EventManager.h\<close>

subsection \<open>Callbacks and handlers\<close>

text \<open>
  \<^verbatim>\<open>std::type_info\<close> as far as the manager uses it: \<^verbatim>\<open>before\<close> is a strict total
  order on the types of a program, fixed by the implementation. A type is represented by
  its rank in that order.
\<close>

datatype type_info = TypeInfo nat

fun before :: "type_info \<Rightarrow> type_info \<Rightarrow> bool" where
  "before (TypeInfo a) (TypeInfo b) = (a < b)"

text \<open>
  \<^verbatim>\<open>std::function<void(const Event&)>\<close>: the type of the stored callable, which
  \<^verbatim>\<open>target_type()\<close> returns, and the callable itself. A call reads the event and
  may change \<open>'w\<close>, the state of the program that the callable has captured, and may
  call \<^verbatim>\<open>PushEvent\<close> on the manager: \<open>target\<close> returns the events pushed, in
  order, and the new captured state. Two callbacks of one type (two free functions of the
  same signature, say) differ in \<open>target\<close> only. Callbacks that register or remove
  handlers, or that call \<^verbatim>\<open>ProcessEvents\<close> themselves, are outside this model.
\<close>

record 'w callback =
  target_type :: type_info
  target :: "Event \<Rightarrow> 'w \<Rightarrow> Event list \<times> 'w"

text \<open>\<^verbatim>\<open>using EventHandler = std::pair<int, std::function<void(const Event&)>>\<close>\<close>

type_synonym 'w EventHandler = "int \<times> 'w callback"

definition EventHandlerComparer :: "'w EventHandler \<Rightarrow> 'w EventHandler \<Rightarrow> bool" where
  "EventHandlerComparer left right =
     (if fst left \<noteq> fst right then fst left > fst right
      else before (target_type (snd left)) (target_type (snd right)))"

definition EventComparer :: "Event \<Rightarrow> Event \<Rightarrow> bool" where
  "EventComparer left right = (GetPriorityLevel left < GetPriorityLevel right)"

subsection \<open>The containers of the standard library\<close>

text \<open>
  \<^verbatim>\<open>std::set<T, Compare>\<close> as the list of its elements in iteration order.
  \<^verbatim>\<open>insert\<close> puts the element at its place unless an equivalent one (neither is
  before the other) is there already; \<^verbatim>\<open>erase(key)\<close> removes the element
  equivalent to the key, if there is one.
\<close>

fun set_insert :: "('a \<Rightarrow> 'a \<Rightarrow> bool) \<Rightarrow> 'a \<Rightarrow> 'a list \<Rightarrow> 'a list" where
  "set_insert cmp x [] = [x]"
| "set_insert cmp x (y # ys) =
     (if cmp x y then x # y # ys
      else if cmp y x then y # set_insert cmp x ys
      else y # ys)"

fun set_erase :: "('a \<Rightarrow> 'a \<Rightarrow> bool) \<Rightarrow> 'a \<Rightarrow> 'a list \<Rightarrow> 'a list" where
  "set_erase cmp x [] = []"
| "set_erase cmp x (y # ys) =
     (if cmp x y then y # ys
      else if cmp y x then y # set_erase cmp x ys
      else ys)"

text \<open>
  \<^verbatim>\<open>std::priority_queue<T, std::vector<T>, Compare>\<close> as the list of its elements
  in the order they were pushed. \<^verbatim>\<open>top\<close> is an element that is not below any other
  one; the standard leaves open which of several such elements it is, and the model takes
  the one pushed first. \<^verbatim>\<open>pop\<close> removes that element. Both are called on a
  non-empty queue only.
\<close>

fun top_index :: "('a \<Rightarrow> 'a \<Rightarrow> bool) \<Rightarrow> 'a list \<Rightarrow> nat" where
  "top_index cmp [] = 0"
| "top_index cmp [x] = 0"
| "top_index cmp (x # y # ys) =
     (let i = top_index cmp (y # ys)
      in if cmp x ((y # ys) ! i) then Suc i else 0)"

definition pq_top :: "('a \<Rightarrow> 'a \<Rightarrow> bool) \<Rightarrow> 'a list \<Rightarrow> 'a" where
  "pq_top cmp q = q ! top_index cmp q"

definition pq_pop :: "('a \<Rightarrow> 'a \<Rightarrow> bool) \<Rightarrow> 'a list \<Rightarrow> 'a list" where
  "pq_pop cmp q = take (top_index cmp q) q @ drop (Suc (top_index cmp q)) q"

definition pq_push :: "'a \<Rightarrow> 'a list \<Rightarrow> 'a list" where
  "pq_push x q = q @ [x]"

subsection \<open>The manager\<close>

text \<open>
  The two members of the class, \<open>m_handlers\<close> and \<open>m_eventQueue\<close>, and what a call
  can change besides them: \<open>captured\<close>, the state of the program that the callbacks have
  captured; \<open>cout\<close>, the priorities written to the console by \<^verbatim>\<open>RemoveHandler\<close>; and
  \<open>calls\<close>, a history kept for the statements about dispatch, which records every
  callback invocation with the handler and the event passed to it.
\<close>

record 'w EventManager =
  m_handlers :: "u32 \<rightharpoonup> 'w EventHandler list"
  m_eventQueue :: "Event list"
  captured :: 'w
  cout :: "int list"
  calls :: "('w EventHandler \<times> Event) list"

text \<open>A manager after construction: no handler, no event.\<close>

definition new_EventManager :: "'w \<Rightarrow> 'w EventManager" where
  "new_EventManager w =
     \<lparr>m_handlers = Map.empty, m_eventQueue = [], captured = w, cout = [], calls = []\<rparr>"

text \<open>The set of handlers of a key; the empty set for a key the map does not hold.\<close>

definition handlers_of :: "'w EventManager \<Rightarrow> u32 \<Rightarrow> 'w EventHandler list" where
  "handlers_of s eventHash = (case m_handlers s eventHash of None \<Rightarrow> [] | Some handlers \<Rightarrow> handlers)"

text \<open>
  \<^verbatim>\<open>AddHandler(uint32_t, const EventHandler&)\<close>: \<^verbatim>\<open>m_handlers[eventHash]\<close> creates
  an empty set for a new key, then the handler is inserted.
\<close>

definition AddHandler :: "u32 \<Rightarrow> 'w EventHandler \<Rightarrow> 'w EventManager \<Rightarrow> 'w EventManager" where
  "AddHandler eventHash handler s =
     s\<lparr>m_handlers := (m_handlers s)
          (eventHash \<mapsto> set_insert EventHandlerComparer handler (handlers_of s eventHash))\<rparr>"

text \<open>
  \<^verbatim>\<open>RemoveHandler(uint32_t, const EventHandler&)\<close>: nothing happens for a key the
  map does not hold; otherwise a line with the handler's priority is printed and the
  handler is erased from the set.
\<close>

definition RemoveHandler :: "u32 \<Rightarrow> 'w EventHandler \<Rightarrow> 'w EventManager \<Rightarrow> 'w EventManager" where
  "RemoveHandler eventHash handler s =
     (case m_handlers s eventHash of
        None \<Rightarrow> s
      | Some handlers \<Rightarrow>
          s\<lparr>cout := cout s @ [fst handler],
            m_handlers := (m_handlers s)
              (eventHash \<mapsto> set_erase EventHandlerComparer handler handlers)\<rparr>)"

text \<open>The overloads that take the name of the event type.\<close>

definition AddHandler_name ::
  "u32 \<Rightarrow> string \<Rightarrow> 'w EventHandler \<Rightarrow> 'w EventManager \<Rightarrow> 'w EventManager" where
  "AddHandler_name default_seed eventTypeString handler s =
     AddHandler (HashEventString default_seed eventTypeString) handler s"

definition RemoveHandler_name ::
  "u32 \<Rightarrow> string \<Rightarrow> 'w EventHandler \<Rightarrow> 'w EventManager \<Rightarrow> 'w EventManager" where
  "RemoveHandler_name default_seed eventTypeString handler s =
     RemoveHandler (HashEventString default_seed eventTypeString) handler s"

definition PushEvent :: "Event \<Rightarrow> 'w EventManager \<Rightarrow> 'w EventManager" where
  "PushEvent event s = s\<lparr>m_eventQueue := pq_push event (m_eventQueue s)\<rparr>"

text \<open>
  \<^verbatim>\<open>handler.second(event)\<close> inside the loop of \<^verbatim>\<open>ProcessEvents\<close>. There
  \<^verbatim>\<open>event\<close> is a reference, \<^verbatim>\<open>const Event& event = m_eventQueue.top()\<close>, to the
  first slot of the queue's storage, so every call passes the element that is on top of
  the queue when the call is made. (A push that makes the storage grow leaves the
  reference dangling; that case has no defined behaviour and is not modelled.) The events
  the callback pushes go through \<^verbatim>\<open>PushEvent\<close>.
\<close>

definition invoke :: "'w EventHandler \<Rightarrow> 'w EventManager \<Rightarrow> 'w EventManager" where
  "invoke handler s =
     (let event = pq_top EventComparer (m_eventQueue s);
          (pushed, w) = target (snd handler) event (captured s)
      in fold PushEvent pushed (s\<lparr>captured := w, calls := calls s @ [(handler, event)]\<rparr>))"

text \<open>
  One pass through the body of the \<^verbatim>\<open>while\<close> loop: look up the handlers of the type
  of the event on top, call each of them in the order of the set, then
  \<^verbatim>\<open>m_eventQueue.pop()\<close>.
\<close>

definition ProcessEvents_body :: "'w EventManager \<Rightarrow> 'w EventManager" where
  "ProcessEvents_body s =
     (let event = pq_top EventComparer (m_eventQueue s);
          s1 = (case m_handlers s (GetType event) of
                  None \<Rightarrow> s
                | Some handlers \<Rightarrow> fold invoke handlers s)
      in s1\<lparr>m_eventQueue := pq_pop EventComparer (m_eventQueue s1)\<rparr>)"

text \<open>
  \<^verbatim>\<open>ProcessEvents\<close>: \<^verbatim>\<open>while (!m_eventQueue.empty())\<close>. The loop need not end
  (a callback may push an event on every call), so the result is an option: \<open>None\<close>
  stands for a call that does not return.
\<close>

partial_function (option) ProcessEvents :: "'w EventManager \<Rightarrow> 'w EventManager option" where
  "ProcessEvents s =
     (if m_eventQueue s = [] then Some s else ProcessEvents (ProcessEvents_body s))"

declare ProcessEvents.simps [code]

text \<open>The callback invocations made by one pass through the loop body.\<close>

definition invocations :: "'w EventManager \<Rightarrow> ('w EventHandler \<times> Event) list" where
  "invocations s = drop (length (calls s)) (calls (ProcessEvents_body s))"

text \<open>
  The state of the registry that \<^verbatim>\<open>std::set\<close> maintains: every set of handlers is
  strictly ascending under the comparer, so no two of its elements are equivalent.
\<close>

definition registry_ok :: "'w EventManager \<Rightarrow> bool" where
  "registry_ok s = (\<forall>eventHash handlers.
      m_handlers s eventHash = Some handlers \<longrightarrow> sorted_wrt EventHandlerComparer handlers)"

text \<open>
  The calls a program can make on a manager, and a program as a list of such calls run
  from a given state; \<open>None\<close> when a call of \<^verbatim>\<open>ProcessEvents\<close> does not return.
\<close>

datatype 'w api_call =
    Call_AddHandler u32 "'w EventHandler"
  | Call_RemoveHandler u32 "'w EventHandler"
  | Call_PushEvent Event
  | Call_ProcessEvents

fun run_calls :: "'w api_call list \<Rightarrow> 'w EventManager \<Rightarrow> 'w EventManager option" where
  "run_calls [] s = Some s"
| "run_calls (Call_AddHandler eventHash handler # cs) s =
     run_calls cs (AddHandler eventHash handler s)"
| "run_calls (Call_RemoveHandler eventHash handler # cs) s =
     run_calls cs (RemoveHandler eventHash handler s)"
| "run_calls (Call_PushEvent event # cs) s = run_calls cs (PushEvent event s)"
| "run_calls (Call_ProcessEvents # cs) s =
     (case ProcessEvents s of None \<Rightarrow> None | Some s' \<Rightarrow> run_calls cs s')"

text \<open>Two handlers with the same priority and callbacks of the same type.\<close>

definition same_element :: "'w EventHandler \<Rightarrow> 'w EventHandler \<Rightarrow> bool" where
  "same_element a b = (fst a = fst b \<and> target_type (snd a) = target_type (snd b))"

text \<open>
  No callback of a registered handler ever pushes an event: the condition under which
  every call of \<^verbatim>\<open>ProcessEvents\<close> is shown to return.
\<close>

definition no_push :: "'w EventManager \<Rightarrow> bool" where
  "no_push s = (\<forall>eventHash handlers h e w.
      m_handlers s eventHash = Some handlers \<longrightarrow> h \<in> set handlers \<longrightarrow>
      fst (target (snd h) e w) = [])"

section \<open>Example programs\<close>

text \<open>
  Callbacks for the examples. The captured state is the list of the lines printed so
  far, each line represented by the number of the callback that printed it.
  \<open>printer n\<close> prints its line; \<open>pusher n event\<close> prints its line and, the first
  time it runs, pushes \<open>event\<close>. Each of them has a type of its own, as a lambda
  expression has; \<open>OnPlayerDied\<close> and \<open>OnPlayerDiedPriority\<close> are two free
  functions of one signature, so they have the same type.
\<close>

definition printer :: "nat \<Rightarrow> nat list callback" where
  "printer n = \<lparr>target_type = TypeInfo n, target = (\<lambda>event w. ([], w @ [n]))\<rparr>"

definition pusher :: "nat \<Rightarrow> Event \<Rightarrow> nat list callback" where
  "pusher n pushed =
     \<lparr>target_type = TypeInfo n,
      target = (\<lambda>event w. (if n \<in> set w then [] else [pushed], w @ [n]))\<rparr>"

definition OnPlayerDied :: "nat list callback" where
  "OnPlayerDied = \<lparr>target_type = TypeInfo 0, target = (\<lambda>event w. ([], w @ [100]))\<rparr>"

definition OnPlayerDiedPriority :: "nat list callback" where
  "OnPlayerDiedPriority = \<lparr>target_type = TypeInfo 0, target = (\<lambda>event w. ([], w @ [200]))\<rparr>"

text \<open>The examples take 0 for the default seed of the event names.\<close>

definition PlayerDied :: "int \<Rightarrow> Event" where
  "PlayerDied priority = make_Event 0 ''PlayerDied'' priority"

definition PlayerMoved :: "int \<Rightarrow> Event" where
  "PlayerMoved priority = make_Event 0 ''PlayerMoved'' priority"

text \<open>
  Three handlers for one event type, registered with the priorities 5, 1 and 10 in this
  order, and one event of the type queued.
\<close>

definition three_handlers :: "nat list EventManager" where
  "three_handlers =
     PushEvent (PlayerDied 0)
      (AddHandler_name 0 ''PlayerDied'' (10, printer 3)
        (AddHandler_name 0 ''PlayerDied'' (1, printer 2)
          (AddHandler_name 0 ''PlayerDied'' (5, printer 1)
            (new_EventManager []))))"

text \<open>
  An event of priority 10 pushed before one of priority 5, each type with one handler.
\<close>

definition two_events :: "nat list EventManager" where
  "two_events =
     PushEvent (PlayerMoved 5)
      (PushEvent (PlayerDied 10)
        (AddHandler_name 0 ''PlayerMoved'' (0, printer 2)
          (AddHandler_name 0 ''PlayerDied'' (0, printer 1)
            (new_EventManager []))))"

text \<open>
  A handler that pushes an event while it runs. The handler of \<open>PlayerMoved\<close> pushes a
  \<open>PlayerDied\<close> event of priority \<open>p\<close> when it runs for the first time; one
  \<open>PlayerMoved\<close> event of priority 5 is queued.
\<close>

definition pushing_handler :: "int \<Rightarrow> nat list EventManager" where
  "pushing_handler p =
     PushEvent (PlayerMoved 5)
      (AddHandler_name 0 ''PlayerDied'' (0, printer 2)
        (AddHandler_name 0 ''PlayerMoved'' (0, pusher 1 (PlayerDied p))
          (new_EventManager [])))"

text \<open>
  A handler that pushes an event of its own type every time it runs, and one such
  event queued.
\<close>

definition flooding :: "nat list EventManager" where
  "flooding =
     PushEvent (PlayerMoved 5)
      (AddHandler_name 0 ''PlayerMoved''
        (0, \<lparr>target_type = TypeInfo 1, target = (\<lambda>event w. ([PlayerMoved 5], w @ [1]))\<rparr>)
        (new_EventManager []))"

text \<open>One handler of priority 5 registered for \<open>PlayerDied\<close>, and one such event queued.\<close>

definition one_handler :: "nat list EventManager" where
  "one_handler =
     PushEvent (PlayerDied 0)
      (AddHandler_name 0 ''PlayerDied'' (5, OnPlayerDied) (new_EventManager []))"

text \<open>What a finished call of \<^verbatim>\<open>ProcessEvents\<close> has dispatched: for every callback
  invocation the priority of the handler and the key of the event passed, and the lines
  printed.\<close>

definition dispatched :: "'w EventManager \<Rightarrow> (int \<times> u32) list" where
  "dispatched s = map (\<lambda>(handler, event). (fst handler, GetType event)) (calls s)"


section \<open>The hash: the code computes the specified algorithm\<close>

lemma sint_word_of_nat_small: "n < 2 ^ 31 \<Longrightarrow> sint (word_of_nat n :: 32 word) = int n"
proof -
  assume a: "n < 2 ^ 31"
  have "sint (word_of_int (int n) :: 32 word) = (int n + 2 ^ (32 - 1)) mod 2 ^ 32 - 2 ^ (32 - 1)"
    using int_word_sint [of "int n", where 'a = 32] by simp
  then have "sint (word_of_nat n :: 32 word) = (int n + 2 ^ 31) mod 2 ^ 32 - 2 ^ 31"
    by simp
  moreover have "int n < 2 ^ 31" using a by simp
  ultimately show ?thesis by simp
qed

text \<open>The macro is a rotation for every amount the code uses it with.\<close>

lemma shift_is_rotl:
  assumes "0 < r" "r < 32"
  shows "CIRCULAR_SHIFT_LEFT_32_BITS x r = word_rotl r x"
proof (rule bit_word_eqI)
  fix n
  assume n: "n < LENGTH(32)"
  show "bit (CIRCULAR_SHIFT_LEFT_32_BITS x r) n = bit (word_rotl r x) n"
  proof (cases "r \<le> n")
    case True
    then have m: "(n + (32 - r mod 32)) mod 32 = n - r"
      using assms n by (simp add: mod_if)
    have "\<not> bit x (32 - r + n)"
      using True assms bit_imp_le_length [of x "32 - r + n"] by auto
    then show ?thesis
      using True n assms m
      by (simp add: CIRCULAR_SHIFT_LEFT_32_BITS_def bit_simps)
  next
    case False
    then have m: "(n + (32 - r mod 32)) mod 32 = 32 - r + n"
      using assms n by simp
    show ?thesis
      using False n assms m
      by (simp add: CIRCULAR_SHIFT_LEFT_32_BITS_def bit_simps)
  qed
qed

text \<open>A byte and a word shifted left by 8 have no bit in common.\<close>

lemma byte_disj: "\<not> bit (ucast (b :: u8) :: u32) n \<or> \<not> bit (push_bit 8 (w :: u32)) n"
  using bit_imp_le_length [of b n] by (auto simp add: bit_simps)

lemma byte_plus: "(ucast (b :: u8) :: u32) + 256 * w = ucast b OR push_bit 8 w"
proof -
  have "(ucast b :: u32) + push_bit 8 w = ucast b OR push_bit 8 w"
    by (rule disjunctive_add) (rule byte_disj)
  then show ?thesis by (simp add: push_bit_eq_mult mult.commute)
qed

lemma byte_xor: "(ucast (b :: u8) :: u32) XOR push_bit 8 w = ucast b OR push_bit 8 w"
  by (rule bit_word_eqI) (use byte_disj [of b _ w] in \<open>auto simp add: bit_xor_iff bit_or_iff\<close>)

lemma mix_k_spec: "mix_k k = spec_mix k"
  by (simp add: mix_k_def spec_mix_def kC1_def kC2_def shift_is_rotl)

lemma FMix_spec: "FMix h = spec_finish h"
  by (simp add: FMix_def spec_finish_def Let_def drop_bit_eq_div)

lemma block_step_spec:
  "block_step (read_block (b0 # b1 # b2 # b3 # rest) 0) h =
     word_rotl 13 (h XOR spec_mix (spec_le [b0, b1, b2, b3])) * 5 + 0xe6546b64"
  by (simp add: block_step_def mix_k_spec shift_is_rotl read_block_def byte_plus
      push_bit_or push_bit_push_bit)

text \<open>The loop with its negative counter visits the last \<open>k\<close> blocks in ascending order.\<close>

lemma block_loop_fold:
  "k \<le> n \<Longrightarrow> block_loop data (int n) (- int k) h = blocks_from data (n - k) n h"
proof (induction k arbitrary: h)
  case 0
  then show ?case by (simp add: block_loop.simps blocks_from_def)
next
  case (Suc k)
  then have "[n - Suc k..<n] = (n - Suc k) # [n - k..<n]"
    by (simp add: upt_conv_Cons Suc_diff_Suc)
  moreover have "nat (int n + (- 1 - int k)) = n - Suc k"
    using Suc.prems by simp
  ultimately show ?case
    using Suc by (subst block_loop.simps) (simp add: blocks_from_def)
qed

lemma read_block_Suc:
  "read_block (b0 # b1 # b2 # b3 # rest) (Suc j) = read_block rest j"
  by (simp add: read_block_def add.commute)

lemma blocks_from_shift:
  "blocks_from (b0 # b1 # b2 # b3 # rest) (Suc lo) (Suc hi) h = blocks_from rest lo hi h"
proof -
  have "[Suc lo..<Suc hi] = map Suc [lo..<hi]"
    by (simp add: map_Suc_upt)
  then show ?thesis
    by (simp add: blocks_from_def foldl_map read_block_Suc)
qed

lemma tail3_spec:
  "(ucast (a :: u8) :: u32) XOR push_bit 8 (ucast (b :: u8)) XOR push_bit 16 (ucast (c :: u8))
     = ucast a + 256 * (ucast b + 256 * ucast c)"
proof -
  have inner: "(ucast b :: u32) + 256 * ucast c = ucast b XOR push_bit 8 (ucast c)"
    by (simp only: byte_plus byte_xor)
  have outer: "(ucast a :: u32) + 256 * w = ucast a XOR push_bit 8 w" for w
    by (simp only: byte_plus byte_xor)
  show ?thesis
    by (simp only: inner outer push_bit_xor push_bit_push_bit) simp
qed

text \<open>The fall-through switch mixes the little-endian value of the tail bytes.\<close>

lemma tail_switch_spec:
  "length tail < 4 \<Longrightarrow>
   tail_switch tail (length tail + 4 * m) h = (if tail = [] then h else h XOR spec_mix (spec_le tail))"
proof -
  assume "length tail < 4"
  then have "length tail = 0 \<or> length tail = 1 \<or> length tail = 2 \<or> length tail = 3"
    by arith
  then consider "tail = []" | a where "tail = [a]" | a b where "tail = [a, b]"
    | a b c where "tail = [a, b, c]"
    by (auto simp add: length_Suc_conv numeral_2_eq_2 numeral_3_eq_3)
  then show ?thesis
  proof cases
    case 1
    then show ?thesis by (simp add: tail_switch_def)
  next
    case 2
    then show ?thesis by (simp add: tail_switch_def mix_k_spec)
  next
    case 3
    have "(2 + 4 * m) mod 4 = (2 :: nat)" by presburger
    with 3 show ?thesis
      by (simp add: tail_switch_def mix_k_spec byte_plus byte_xor xor.commute)
  next
    case 4
    have "(3 + 4 * m) mod 4 = (3 :: nat)" by presburger
    with 4 show ?thesis
      using tail3_spec [of a b c]
      by (simp add: tail_switch_def mix_k_spec xor.commute xor.left_commute)
  qed
qed

lemma spec_blocks_short:
  "length data < 4 \<Longrightarrow> spec_blocks h data = (if data = [] then h else h XOR spec_mix (spec_le data))"
  by (cases "(h, data)" rule: spec_blocks.cases) simp_all

text \<open>
  The recursion over the byte list and the loop over block indices followed by the
  switch compute the same value; induction on the number of whole blocks.
\<close>

lemma spec_blocks_loop:
  "spec_blocks h data =
     tail_switch (drop (4 * (length data div 4)) data) (length data)
       (blocks_from data 0 (length data div 4) h)"
proof (induction "length data div 4" arbitrary: h data)
  case 0
  then have short: "length data < 4" by simp
  have "tail_switch data (length data + 4 * 0) h = spec_blocks h data"
    using short by (simp only: tail_switch_spec spec_blocks_short)
  with 0 [symmetric] show ?case
    by (simp add: blocks_from_def)
next
  case (Suc n)
  then have "4 \<le> length data" by simp
  then obtain b0 b1 b2 b3 rest where data: "data = b0 # b1 # b2 # b3 # rest"
    by (cases "(h, data)" rule: spec_blocks.cases) auto
  have n: "n = length rest div 4"
    using Suc.hyps(2) data by simp
  have "blocks_from data 0 (Suc n) h =
        blocks_from data (Suc 0) (Suc n) (block_step (read_block data 0) h)"
    by (simp add: blocks_from_def upt_conv_Cons del: upt_Suc)
  also have "\<dots> = blocks_from rest 0 n (block_step (read_block data 0) h)"
    by (simp only: data blocks_from_shift)
  finally have fold: "blocks_from data 0 (Suc n) h =
      blocks_from rest 0 n (block_step (read_block data 0) h)" .
  have "spec_blocks h data = spec_blocks (block_step (read_block data 0) h) rest"
    by (simp only: data spec_blocks.simps block_step_spec)
  also have "\<dots> = tail_switch (drop (4 * n) rest) (length rest)
       (blocks_from rest 0 n (block_step (read_block data 0) h))"
    using Suc.hyps(1) [OF n] n by simp
  also have "\<dots> = tail_switch (drop (4 * Suc n) data) (length data) (blocks_from data 0 (Suc n) h)"
  proof -
    have "4 * Suc n = Suc (Suc (Suc (Suc (4 * n))))"
      by simp
    then have "drop (4 * Suc n) data = drop (4 * n) rest"
      by (simp only: data drop_Suc_Cons)
    moreover have "length data mod 4 = length rest mod 4"
      by (simp add: data)
    ultimately show ?thesis
      by (simp only: fold tail_switch_def)
  qed
  finally show ?case
    using Suc.hyps(2) [symmetric] by simp
qed

text \<open>
  C5. \<^verbatim>\<open>Hash::Murmur3Hash\<close> is a function of the bytes and the seed alone (it reads
  and writes nothing else, so equal inputs give equal outputs), and it computes the
  Murmur3-32 hash as the specification describes it: little-endian 4-byte blocks mixed
  with C1, a rotation by 15 and C2, xored in, rotated by 13, times 5 plus 0xe6546b64; the
  tail bytes mixed without that last step; the length xored in; the avalanche finisher
  with 0x85ebca6b and 0xc2b2ae35. The empty input with seed 0 hashes to 0. The bound on
  the length is where the \<^verbatim>\<open>int\<close> arithmetic on \<^verbatim>\<open>nblocks\<close> is exact.
\<close>

theorem Murmur3Hash_refines_spec:
  assumes "length key < 2 ^ 31"
  shows "Murmur3Hash key seed = murmur3_32_spec key seed \<and> Murmur3Hash [] 0 = 0"
proof
  let ?n = "length key div 4"
  have "?n < 2 ^ 31"
    using assms by simp
  then have nb: "sint (word_of_nat ?n :: 32 word) = int ?n"
    by (rule sint_word_of_nat_small)
  have "block_loop key (int ?n) (- int ?n) seed = blocks_from key 0 ?n seed"
    using block_loop_fold [of ?n ?n key seed] by simp
  then have "Murmur3Hash key seed =
      FMix (tail_switch (drop (4 * ?n) key) (length key) (blocks_from key 0 ?n seed)
            XOR word_of_nat (length key))"
    by (simp add: Murmur3Hash_def Let_def nb nat_mult_distrib mult.commute)
  then show "Murmur3Hash key seed = murmur3_32_spec key seed"
    by (simp only: murmur3_32_spec_def FMix_spec spec_blocks_loop)
  show "Murmur3Hash [] 0 = 0"
    by (simp add: Murmur3Hash_def block_loop.simps tail_switch_def FMix_def)
qed

theorem Murmur3Hash_refines_spec_witness:
  "length (bytes_of ''Hello, world!'') < 2 ^ 31
   \<and> Murmur3Hash (bytes_of ''Hello, world!'') 0x9747b28c
       = murmur3_32_spec (bytes_of ''Hello, world!'') 0x9747b28c
   \<and> Murmur3Hash [] 0 = 0"
proof -
  have h: "length (bytes_of ''Hello, world!'') < 2 ^ 31"
    by (simp add: bytes_of_def)
  show ?thesis
    using h Murmur3Hash_refines_spec [OF h, of "0x9747b28c"] by simp
qed

text \<open>Published test vectors of Murmur3-32, computed by the model of the code.\<close>

lemma Murmur3Hash_reference_vectors:
  "Murmur3Hash [] 1 = 0x514E28B7"
  "Murmur3Hash (bytes_of ''test'') 0 = 0xBA6BD213"
  "Murmur3Hash (bytes_of ''Hello, world!'') 0x9747b28c = 0x24884CBA"
  "Murmur3Hash (bytes_of ''The quick brown fox jumps over the lazy dog'') 0x9747b28c = 0x2FA826CD"
  by code_simp+

section \<open>Payload components\<close>

text \<open>
  C9, as the code has it: \<^verbatim>\<open>ToString\<close> of the test payload returns, on every call and
  for every instance, the text "Event Payload Test" followed by a line feed.
\<close>

theorem ToString_fixed: "ToString c = ''Event Payload Test'' @ [CHR 0x0A]"
  by (cases c) simp

text \<open>The string returned is not the 18 characters "Event Payload Test" alone.\<close>

theorem ToString_not_bare: "ToString (PayloadTest nullptr) \<noteq> ''Event Payload Test''"
  by simp

lemma AddComponent_attached:
  "m_payloads e T = Some c \<Longrightarrow> AddComponent T ctor this e = (False, e)"
  by (simp add: AddComponent_def)

lemma AddComponent_calls_attached:
  "m_payloads e T = Some c \<Longrightarrow>
   AddComponent_calls T ctors this e = (replicate (length ctors) False, e)"
  by (induction ctors) (simp_all add: AddComponent_attached)

text \<open>
  C8. On an event that has no component of type \<open>T\<close>, the first \<^verbatim>\<open>AddComponent<T>\<close>
  returns true and attaches the component it constructs; every later call, whatever its
  arguments, returns false and leaves the event as the first call left it, so
  \<^verbatim>\<open>GetComponent<T>\<close> still gives the instance attached first.
\<close>

theorem AddComponent_true_once:
  assumes "GetComponent T e = None"
  shows "AddComponent_calls T (ctor # ctors) this e =
           (True # replicate (length ctors) False, e\<lparr>m_payloads := (m_payloads e)(T \<mapsto> ctor this)\<rparr>)
         \<and> GetComponent T (snd (AddComponent_calls T (ctor # ctors) this e)) = Some (ctor this)"
proof -
  let ?e1 = "e\<lparr>m_payloads := (m_payloads e)(T \<mapsto> ctor this)\<rparr>"
  have first: "AddComponent T ctor this e = (True, ?e1)"
    using assms by (simp add: AddComponent_def GetComponent_def)
  have "m_payloads ?e1 T = Some (ctor this)"
    by simp
  then have rest: "AddComponent_calls T ctors this ?e1 = (replicate (length ctors) False, ?e1)"
    by (rule AddComponent_calls_attached)
  show ?thesis
    by (simp add: first rest GetComponent_def)
qed

theorem AddComponent_true_once_witness:
  "GetComponent 7 (make_Event 0 ''PlayerMoved'' 3) = None
   \<and> fst (AddComponent_calls 7 [PayloadTest, PayloadTest, PayloadTest] (Ptr 1)
            (make_Event 0 ''PlayerMoved'' 3)) = [True, False, False]
   \<and> GetComponent 7 (snd (AddComponent_calls 7 [PayloadTest, PayloadTest, PayloadTest] (Ptr 1)
            (make_Event 0 ''PlayerMoved'' 3))) = Some (PayloadTest (Ptr 1))"
proof -
  have h: "GetComponent 7 (make_Event 0 ''PlayerMoved'' 3) = None"
    by (simp add: GetComponent_def make_Event_def)
  show ?thesis
    using h AddComponent_true_once [OF h, of PayloadTest "[PayloadTest, PayloadTest]" "Ptr 1"]
    by (simp add: GetComponent_def del: AddComponent_calls.simps)
qed

section \<open>The handler registry\<close>

subsection \<open>The comparer is a strict order whose equivalence is priority and type\<close>

lemma before_irrefl: "\<not> before t t"
  by (cases t) simp

lemma before_trans: "before a b \<Longrightarrow> before b c \<Longrightarrow> before a c"
  by (cases a; cases b; cases c) simp

lemma before_total: "\<not> before a b \<Longrightarrow> \<not> before b a \<Longrightarrow> a = b"
  by (cases a; cases b) simp

lemma comparer_irrefl: "\<not> EventHandlerComparer a a"
  by (simp add: EventHandlerComparer_def before_irrefl)

lemma comparer_trans:
  "EventHandlerComparer a b \<Longrightarrow> EventHandlerComparer b c \<Longrightarrow> EventHandlerComparer a c"
  by (auto simp add: EventHandlerComparer_def split: if_splits intro: before_trans)

lemma comparer_equiv:
  "(\<not> EventHandlerComparer a b \<and> \<not> EventHandlerComparer b a) = same_element a b"
  by (auto simp add: EventHandlerComparer_def same_element_def before_irrefl
      dest: before_total split: if_splits)

lemma comparer_same_left: "same_element a b \<Longrightarrow> EventHandlerComparer a c = EventHandlerComparer b c"
  by (simp add: EventHandlerComparer_def same_element_def)

lemma comparer_same_right: "same_element a b \<Longrightarrow> EventHandlerComparer c a = EventHandlerComparer c b"
  by (simp add: EventHandlerComparer_def same_element_def)

lemma same_element_sym: "same_element a b = same_element b a"
  by (auto simp add: same_element_def)

lemma set_set_insert: "set (set_insert cmp x ys) \<subseteq> insert x (set ys)"
  by (induction ys) auto

lemma sorted_set_insert:
  "sorted_wrt EventHandlerComparer ys \<Longrightarrow>
   sorted_wrt EventHandlerComparer (set_insert EventHandlerComparer x ys)"
proof (induction ys)
  case Nil
  then show ?case by simp
next
  case (Cons y ys)
  show ?case
  proof (cases "EventHandlerComparer x y")
    case True
    then have "\<forall>z\<in>set ys. EventHandlerComparer x z"
      using Cons.prems by (auto intro: comparer_trans)
    with True Cons.prems show ?thesis by simp
  next
    case False
    have "\<forall>z\<in>set (set_insert EventHandlerComparer x ys). EventHandlerComparer y x \<longrightarrow> EventHandlerComparer y z"
      using Cons.prems set_set_insert [of EventHandlerComparer x ys] by auto
    with False Cons show ?thesis by auto
  qed
qed

lemma set_insert_same:
  "sorted_wrt EventHandlerComparer ys \<Longrightarrow> g \<in> set ys \<Longrightarrow> same_element g x \<Longrightarrow>
   set_insert EventHandlerComparer x ys = ys"
proof (induction ys)
  case Nil
  then show ?case by simp
next
  case (Cons y ys)
  show ?case
  proof (cases "g = y")
    case True
    then have "\<not> EventHandlerComparer x y \<and> \<not> EventHandlerComparer y x"
      using Cons.prems(3) comparer_equiv [of x y] by (simp add: same_element_sym)
    then show ?thesis by simp
  next
    case False
    then have g: "g \<in> set ys" using Cons.prems by simp
    then have "EventHandlerComparer y g" using Cons.prems by simp
    then have yx: "EventHandlerComparer y x"
      using Cons.prems(3) comparer_same_right by blast
    then have "\<not> EventHandlerComparer x y"
      using comparer_trans comparer_irrefl by blast
    with yx Cons g show ?thesis by simp
  qed
qed

lemma set_erase_filter:
  "sorted_wrt EventHandlerComparer ys \<Longrightarrow>
   set_erase EventHandlerComparer x ys = filter (\<lambda>g. \<not> same_element g x) ys"
proof (induction ys)
  case Nil
  then show ?case by simp
next
  case (Cons y ys)
  have later: "\<not> EventHandlerComparer y x \<Longrightarrow> \<forall>z\<in>set ys. \<not> same_element z x"
  proof
    fix z
    assume n: "\<not> EventHandlerComparer y x" and z: "z \<in> set ys"
    then have "EventHandlerComparer y z" using Cons.prems by simp
    then show "\<not> same_element z x"
      using n comparer_same_right by blast
  qed
  show ?case
  proof (cases "EventHandlerComparer x y")
    case True
    then have "\<not> EventHandlerComparer y x"
      using comparer_trans comparer_irrefl by blast
    moreover have "\<not> same_element y x"
      using True comparer_equiv [of y x] by blast
    ultimately show ?thesis
      using True later by simp
  next
    case False
    show ?thesis
    proof (cases "EventHandlerComparer y x")
      case True
      then have "\<not> same_element y x"
        using comparer_equiv [of y x] by blast
      with True False Cons show ?thesis by simp
    next
      case n: False
      then have "same_element y x"
        using False comparer_equiv [of y x] by blast
      with n False later show ?thesis by simp
    qed
  qed
qed

lemma set_insert_has:
  "\<exists>g\<in>set (set_insert EventHandlerComparer x ys). same_element g x"
proof (induction ys)
  case Nil
  then show ?case by (simp add: same_element_def)
next
  case (Cons y ys)
  then show ?case
    using comparer_equiv [of y x] by (auto simp add: same_element_def)
qed

lemma sorted_same_once:
  "sorted_wrt EventHandlerComparer ys \<Longrightarrow> g \<in> set ys \<Longrightarrow> same_element g x \<Longrightarrow>
   length (filter (\<lambda>g. same_element g x) ys) = 1"
proof (induction ys)
  case Nil
  then show ?case by simp
next
  case (Cons y ys)
  show ?case
  proof (cases "same_element y x")
    case True
    have "\<forall>z\<in>set ys. \<not> same_element z x"
    proof
      fix z assume "z \<in> set ys"
      then have "EventHandlerComparer y z" using Cons.prems by simp
      then have "\<not> same_element y z" using comparer_equiv [of y z] by blast
      then show "\<not> same_element z x"
        using True by (auto simp add: same_element_def)
    qed
    then have "filter (\<lambda>g. same_element g x) ys = []"
      by (simp add: filter_empty_conv)
    with True show ?thesis by simp
  next
    case False
    then have "g \<in> set ys" using Cons.prems by auto
    with False Cons show ?thesis by simp
  qed
qed

section \<open>The event queue\<close>

lemma top_index_less: "q \<noteq> [] \<Longrightarrow> top_index cmp q < length q"
  by (induction cmp q rule: top_index.induct) (auto simp add: Let_def)

lemma pq_top_in_set: "q \<noteq> [] \<Longrightarrow> pq_top cmp q \<in> set q"
  by (simp add: pq_top_def top_index_less)

lemma pq_top_max:
  "e \<in> set q \<Longrightarrow> GetPriorityLevel e \<le> GetPriorityLevel (pq_top EventComparer q)"
proof (induction EventComparer q arbitrary: e rule: top_index.induct)
  case 1
  then show ?case by simp
next
  case (2 x)
  then show ?case by (simp add: pq_top_def)
next
  case (3 x y ys)
  let ?t = "pq_top EventComparer (y # ys)"
  have rest: "\<forall>z\<in>set (y # ys). GetPriorityLevel z \<le> GetPriorityLevel ?t"
    using 3(1) by blast
  show ?case
  proof (cases "EventComparer x ?t")
    case True
    then have "pq_top EventComparer (x # y # ys) = ?t"
      by (simp add: pq_top_def Let_def)
    moreover have "GetPriorityLevel x \<le> GetPriorityLevel ?t"
      using True by (simp add: EventComparer_def)
    ultimately show ?thesis
      using rest 3(2) by auto
  next
    case False
    then have "pq_top EventComparer (x # y # ys) = x"
      by (simp add: pq_top_def Let_def)
    moreover have "GetPriorityLevel ?t \<le> GetPriorityLevel x"
      using False by (simp add: EventComparer_def)
    ultimately show ?thesis
      using rest 3(2) by fastforce
  qed
qed

lemma length_pq_pop: "q \<noteq> [] \<Longrightarrow> length (pq_pop cmp q) = length q - 1"
  using top_index_less [of q cmp] by (simp add: pq_pop_def)

lemma set_pq_pop: "set (pq_pop cmp q) \<subseteq> set q"
  by (auto simp add: pq_pop_def dest: in_set_takeD in_set_dropD)

text \<open>Pushing does not lower the priority of the top.\<close>

lemma pq_top_push_mono:
  "q \<noteq> [] \<Longrightarrow> GetPriorityLevel (pq_top EventComparer q)
     \<le> GetPriorityLevel (pq_top EventComparer (pq_push e q))"
  using pq_top_max [of "pq_top EventComparer q" "pq_push e q"] pq_top_in_set [of q EventComparer]
  by (simp add: pq_push_def)

lemma PushEvent_fields [simp]:
  "m_handlers (PushEvent e s) = m_handlers s"
  "captured (PushEvent e s) = captured s"
  "calls (PushEvent e s) = calls s"
  "cout (PushEvent e s) = cout s"
  "m_eventQueue (PushEvent e s) = m_eventQueue s @ [e]"
  by (simp_all add: PushEvent_def pq_push_def)

lemma fold_PushEvent_fields [simp]:
  "m_handlers (fold PushEvent es s) = m_handlers s"
  "captured (fold PushEvent es s) = captured s"
  "calls (fold PushEvent es s) = calls s"
  "cout (fold PushEvent es s) = cout s"
  "m_eventQueue (fold PushEvent es s) = m_eventQueue s @ es"
  by (induction es arbitrary: s) simp_all

lemma invoke_fields:
  "m_handlers (invoke h s) = m_handlers s"
  "cout (invoke h s) = cout s"
  "calls (invoke h s) = calls s @ [(h, pq_top EventComparer (m_eventQueue s))]"
  "m_eventQueue (invoke h s) =
     m_eventQueue s @ fst (target (snd h) (pq_top EventComparer (m_eventQueue s)) (captured s))"
  by (simp_all add: invoke_def Let_def split: prod.splits)

section \<open>Dispatch\<close>

lemma fold_invoke_handlers [simp]: "m_handlers (fold invoke hs s) = m_handlers s"
  by (induction hs arbitrary: s) (simp_all add: invoke_fields)

lemma fold_invoke_cout [simp]: "cout (fold invoke hs s) = cout s"
  by (induction hs arbitrary: s) (simp_all add: invoke_fields)

lemma fold_invoke_log:
  assumes "m_eventQueue s \<noteq> []"
  shows "\<exists>zs es. calls (fold invoke hs s) = calls s @ zs
           \<and> map fst zs = hs
           \<and> m_eventQueue (fold invoke hs s) = m_eventQueue s @ es
           \<and> (\<forall>z\<in>set zs. GetPriorityLevel (pq_top EventComparer (m_eventQueue s))
                  \<le> GetPriorityLevel (snd z))
           \<and> (zs \<noteq> [] \<longrightarrow> snd (hd zs) = pq_top EventComparer (m_eventQueue s))"
  using assms
proof (induction hs arbitrary: s)
  case Nil
  then show ?case by simp
next
  case (Cons h hs)
  let ?q = "m_eventQueue s"
  let ?t = "pq_top EventComparer ?q"
  let ?s1 = "invoke h s"
  obtain pushed where q1: "m_eventQueue ?s1 = ?q @ pushed"
    by (simp add: invoke_fields)
  then have ne: "m_eventQueue ?s1 \<noteq> []"
    using Cons.prems by simp
  have "?t \<in> set (m_eventQueue ?s1)"
    using q1 Cons.prems pq_top_in_set [of ?q EventComparer] by simp
  then have up: "GetPriorityLevel ?t \<le> GetPriorityLevel (pq_top EventComparer (m_eventQueue ?s1))"
    by (rule pq_top_max)
  from Cons.IH [OF ne] obtain zs es where
    c: "calls (fold invoke hs ?s1) = calls ?s1 @ zs" and
    m: "map fst zs = hs" and
    q: "m_eventQueue (fold invoke hs ?s1) = m_eventQueue ?s1 @ es" and
    p: "\<forall>z\<in>set zs. GetPriorityLevel (pq_top EventComparer (m_eventQueue ?s1))
          \<le> GetPriorityLevel (snd z)"
    by blast
  let ?zs = "(h, ?t) # zs"
  have c': "calls (fold invoke (h # hs) s) = calls s @ ?zs"
    using c by (simp add: invoke_fields)
  have q': "m_eventQueue (fold invoke (h # hs) s) = ?q @ (pushed @ es)"
    using q q1 by simp
  have p': "\<forall>z\<in>set ?zs. GetPriorityLevel ?t \<le> GetPriorityLevel (snd z)"
    using p up by auto
  show ?case
    by (rule exI [of _ ?zs], rule exI [of _ "pushed @ es"]) (use c' q' p' m in simp)
qed

lemma body_handlers [simp]: "m_handlers (ProcessEvents_body s) = m_handlers s"
  by (simp add: ProcessEvents_body_def Let_def split: option.splits)

lemma body_cout [simp]: "cout (ProcessEvents_body s) = cout s"
  by (simp add: ProcessEvents_body_def Let_def split: option.splits)

lemma body_calls:
  "calls (ProcessEvents_body s) =
     calls (fold invoke (handlers_of s (GetType (pq_top EventComparer (m_eventQueue s)))) s)"
  by (simp add: ProcessEvents_body_def handlers_of_def Let_def split: option.splits)

lemma invocations_log:
  assumes "m_eventQueue s \<noteq> []"
  shows "map fst (invocations s) = handlers_of s (GetType (pq_top EventComparer (m_eventQueue s)))
         \<and> (\<forall>z\<in>set (invocations s).
               GetPriorityLevel (pq_top EventComparer (m_eventQueue s)) \<le> GetPriorityLevel (snd z))
         \<and> (invocations s \<noteq> [] \<longrightarrow>
               snd (hd (invocations s)) = pq_top EventComparer (m_eventQueue s))"
proof -
  let ?hs = "handlers_of s (GetType (pq_top EventComparer (m_eventQueue s)))"
  from fold_invoke_log [OF assms, of ?hs] obtain zs where
    "calls (fold invoke ?hs s) = calls s @ zs" and
    rest: "map fst zs = ?hs"
      "\<forall>z\<in>set zs. GetPriorityLevel (pq_top EventComparer (m_eventQueue s)) \<le> GetPriorityLevel (snd z)"
      "zs \<noteq> [] \<longrightarrow> snd (hd zs) = pq_top EventComparer (m_eventQueue s)"
    by blast
  then have "invocations s = zs"
    by (simp add: invocations_def body_calls)
  with rest show ?thesis by simp
qed

lemma registry_ok_new: "registry_ok (new_EventManager w)"
  by (simp add: registry_ok_def new_EventManager_def)

lemma registry_ok_handlers_of: "registry_ok s \<Longrightarrow> sorted_wrt EventHandlerComparer (handlers_of s k)"
  by (auto simp add: registry_ok_def handlers_of_def split: option.splits)

lemma registry_ok_AddHandler: "registry_ok s \<Longrightarrow> registry_ok (AddHandler k h s)"
  using registry_ok_handlers_of [of s k]
  by (auto simp add: registry_ok_def AddHandler_def sorted_set_insert)

lemma registry_ok_RemoveHandler: "registry_ok s \<Longrightarrow> registry_ok (RemoveHandler k h s)"
  by (auto simp add: registry_ok_def RemoveHandler_def set_erase_filter sorted_wrt_filter
      split: option.splits)

lemma registry_ok_PushEvent: "registry_ok (PushEvent e s) = registry_ok s"
  by (simp add: registry_ok_def)

lemma registry_ok_body: "registry_ok (ProcessEvents_body s) = registry_ok s"
  by (simp add: registry_ok_def)

lemma ProcessEvents_handlers:
  assumes "ProcessEvents s = Some s'"
  shows "m_handlers s' = m_handlers s"
  using assms
proof (induction rule: ProcessEvents.raw_induct [rotated, consumes 1, case_names step])
  case (step rec s s')
  then show ?case
    by (cases "m_eventQueue s = []") auto
qed

lemma registry_ok_ProcessEvents:
  "ProcessEvents s = Some s' \<Longrightarrow> registry_ok s \<Longrightarrow> registry_ok s'"
  by (drule ProcessEvents_handlers) (simp add: registry_ok_def)

lemma registry_ok_run_calls:
  "registry_ok s0 \<Longrightarrow> run_calls cs s0 = Some s \<Longrightarrow> registry_ok s"
proof (induction cs arbitrary: s0)
  case Nil
  then show ?case by simp
next
  case (Cons c cs)
  show ?case
  proof (cases c)
    case (Call_AddHandler k h)
    with Cons show ?thesis
      by (auto intro: registry_ok_AddHandler)
  next
    case (Call_RemoveHandler k h)
    with Cons show ?thesis
      by (auto intro: registry_ok_RemoveHandler)
  next
    case (Call_PushEvent e)
    moreover have "registry_ok (PushEvent e s0)"
      using Cons.prems(1) by (simp add: registry_ok_PushEvent)
    ultimately show ?thesis
      using Cons by auto
  next
    case Call_ProcessEvents
    with Cons show ?thesis
      by (auto split: option.splits dest: registry_ok_ProcessEvents)
  qed
qed

text \<open>
  Every state that a program reaches from a new manager through the four operations has
  a registry as \<^verbatim>\<open>std::set\<close> maintains it.
\<close>

lemma registry_ok_reachable:
  "run_calls cs (new_EventManager w) = Some s \<Longrightarrow> registry_ok s"
  using registry_ok_new by (rule registry_ok_run_calls)

subsection \<open>Insertion does not depend on the order of registration\<close>

lemma comparer_asym: "EventHandlerComparer u v \<Longrightarrow> \<not> EventHandlerComparer v u"
  using comparer_trans [of u v u] comparer_irrefl [of u] by blast

lemma set_insert_before:
  "EventHandlerComparer a y \<Longrightarrow> set_insert EventHandlerComparer a (y # ys) = a # y # ys"
  by simp

lemma set_insert_after:
  "EventHandlerComparer y a \<Longrightarrow>
   set_insert EventHandlerComparer a (y # ys) = y # set_insert EventHandlerComparer a ys"
  by (simp add: comparer_asym)

lemma set_insert_at:
  "same_element a y \<Longrightarrow> set_insert EventHandlerComparer a (y # ys) = y # ys"
  using comparer_equiv [of a y] by simp

lemma comparer_cases:
  obtains "EventHandlerComparer a y" | "EventHandlerComparer y a" | "same_element a y"
  using comparer_equiv [of a y] by blast

lemma set_insert_commute:
  "\<not> same_element a b \<Longrightarrow>
   set_insert EventHandlerComparer a (set_insert EventHandlerComparer b ys)
     = set_insert EventHandlerComparer b (set_insert EventHandlerComparer a ys)"
proof (induction ys)
  case Nil
  then have "\<not> same_element b a"
    by (simp add: same_element_sym)
  with Nil show ?case
    by (cases a b rule: comparer_cases) (simp_all add: comparer_asym)
next
  case (Cons y ys)
  then have ba: "\<not> same_element b a"
    by (simp add: same_element_sym)
  have first: "set_insert EventHandlerComparer u (set_insert EventHandlerComparer v (y # ys))
     = set_insert EventHandlerComparer v (set_insert EventHandlerComparer u (y # ys))"
    if u: "EventHandlerComparer u y" and uv: "\<not> same_element u v" "\<not> same_element v u"
    for u v :: "'a EventHandler"
  proof (cases v y rule: comparer_cases)
    case 1
    show ?thesis
      using uv u 1 by (cases u v rule: comparer_cases)
        (simp_all add: set_insert_before set_insert_after del: set_insert.simps(2))
  next
    case 2
    then have "EventHandlerComparer u v"
      using u comparer_trans by blast
    then show ?thesis
      using u 2 by (simp add: set_insert_before set_insert_after del: set_insert.simps(2))
  next
    case 3
    then have "EventHandlerComparer u v"
      using u comparer_same_right by blast
    then show ?thesis
      using u 3 by (simp add: set_insert_before set_insert_after set_insert_at del: set_insert.simps(2))
  qed
  show ?case
  proof (cases a y rule: comparer_cases)
    case 1
    then show ?thesis using Cons.prems ba by (rule first)
  next
    case a2: 2
    show ?thesis
    proof (cases b y rule: comparer_cases)
      case 1
      then show ?thesis using ba Cons.prems by (rule first [symmetric])
    next
      case 2
      then show ?thesis
        using a2 Cons by (simp add: set_insert_after del: set_insert.simps(2))
    next
      case 3
      then show ?thesis
        using a2 by (simp add: set_insert_after set_insert_at del: set_insert.simps(2))
    qed
  next
    case a3: 3
    show ?thesis
    proof (cases b y rule: comparer_cases)
      case 1
      then show ?thesis using ba Cons.prems by (rule first [symmetric])
    next
      case 2
      then show ?thesis
        using a3 by (simp add: set_insert_after set_insert_at del: set_insert.simps(2))
    next
      case 3
      then have "same_element a b"
        using a3 by (simp add: same_element_def)
      with Cons.prems show ?thesis by simp
    qed
  qed
qed

subsection \<open>Registering and removing handlers\<close>

lemma handlers_of_AddHandler:
  "handlers_of (AddHandler k h s) k' =
     (if k' = k then set_insert EventHandlerComparer h (handlers_of s k) else handlers_of s k')"
  by (simp add: handlers_of_def AddHandler_def)

lemma handlers_of_PushEvent [simp]: "handlers_of (PushEvent e s) k = handlers_of s k"
  by (simp add: handlers_of_def)

lemma handlers_of_new [simp]: "handlers_of (new_EventManager w) k = []"
  by (simp add: handlers_of_def new_EventManager_def)

lemma handlers_of_RemoveHandler:
  "registry_ok s \<Longrightarrow>
   handlers_of (RemoveHandler k h s) k' =
     (if k' = k then filter (\<lambda>g. \<not> same_element g h) (handlers_of s k) else handlers_of s k')"
  by (auto simp add: handlers_of_def RemoveHandler_def registry_ok_def set_erase_filter
      split: option.splits)

lemma RemoveHandler_queue [simp]: "m_eventQueue (RemoveHandler k h s) = m_eventQueue s"
  by (simp add: RemoveHandler_def split: option.splits)

lemma AddHandler_queue [simp]: "m_eventQueue (AddHandler k h s) = m_eventQueue s"
  by (simp add: AddHandler_def)

lemma RemoveHandler_no_match:
  assumes "registry_ok s" and "\<forall>g\<in>set (handlers_of s k). \<not> same_element g h"
  shows "m_handlers (RemoveHandler k h s) = m_handlers s"
proof (cases "m_handlers s k")
  case None
  then show ?thesis by (simp add: RemoveHandler_def)
next
  case (Some hs)
  then have "sorted_wrt EventHandlerComparer hs"
    using assms(1) by (simp add: registry_ok_def)
  then have "set_erase EventHandlerComparer h hs = filter (\<lambda>g. \<not> same_element g h) hs"
    by (rule set_erase_filter)
  also have "\<dots> = hs"
    using assms(2) Some by (simp add: handlers_of_def)
  finally show ?thesis
    using Some by (auto simp add: RemoveHandler_def)
qed

lemma AddHandler_present:
  assumes "registry_ok s" and "g \<in> set (handlers_of s k)" and "same_element g h"
  shows "AddHandler k h s = s"
proof -
  obtain hs where hs: "m_handlers s k = Some hs"
    using assms(2) by (cases "m_handlers s k") (simp_all add: handlers_of_def)
  then have "sorted_wrt EventHandlerComparer hs" and "g \<in> set hs"
    using assms(1,2) by (simp_all add: registry_ok_def handlers_of_def)
  then have "set_insert EventHandlerComparer h hs = hs"
    using assms(3) by (rule set_insert_same)
  then have "(m_handlers s)(k \<mapsto> set_insert EventHandlerComparer h (handlers_of s k)) = m_handlers s"
    using hs by (auto simp add: handlers_of_def)
  then show ?thesis
    by (simp add: AddHandler_def)
qed

lemma fold_PushEvent_cout_update:
  "fold PushEvent es (s\<lparr>cout := c\<rparr>) = (fold PushEvent es s)\<lparr>cout := c\<rparr>"
  by (induction es arbitrary: s) (simp_all add: PushEvent_def)

lemma invoke_cout_update: "invoke h (s\<lparr>cout := c\<rparr>) = (invoke h s)\<lparr>cout := c\<rparr>"
  by (simp add: invoke_def Let_def fold_PushEvent_cout_update split: prod.splits)

lemma fold_invoke_cout_update:
  "fold invoke hs (s\<lparr>cout := c\<rparr>) = (fold invoke hs s)\<lparr>cout := c\<rparr>"
  by (induction hs arbitrary: s) (simp_all add: invoke_cout_update)

lemma invocations_cout_update: "invocations (s\<lparr>cout := c\<rparr>) = invocations s"
  by (simp add: invocations_def body_calls handlers_of_def fold_invoke_cout_update)

lemma RemoveHandler_no_match_state:
  assumes "registry_ok s" and "\<forall>g\<in>set (handlers_of s k). \<not> same_element g h"
  shows "RemoveHandler k h s = s \<or> RemoveHandler k h s = s\<lparr>cout := cout s @ [fst h]\<rparr>"
proof (cases "m_handlers s k")
  case None
  then show ?thesis by (simp add: RemoveHandler_def)
next
  case (Some hs)
  have "m_handlers (RemoveHandler k h s) = m_handlers s"
    using assms by (rule RemoveHandler_no_match)
  then have "(m_handlers s)(k \<mapsto> set_erase EventHandlerComparer h hs) = m_handlers s"
    using Some by (simp add: RemoveHandler_def)
  then show ?thesis
    using Some by (simp add: RemoveHandler_def)
qed

text \<open>
  C6. \<^verbatim>\<open>RemoveHandler\<close> erases from the set of the key exactly the handlers whose
  priority and callback type both equal those of the handler given, and touches no other
  key and not the queue. When no registered handler matches (another priority, another
  type, or a key without a set) the registry is unchanged, the call has no failure
  branch, and the next dispatch makes the same callback invocations as it would have
  made without the call.
\<close>

theorem RemoveHandler_exact_match:
  assumes "registry_ok s"
  shows "handlers_of (RemoveHandler k h s) k =
           filter (\<lambda>g. \<not> (fst g = fst h \<and> target_type (snd g) = target_type (snd h)))
             (handlers_of s k)
         \<and> (\<forall>k'. k' \<noteq> k \<longrightarrow> handlers_of (RemoveHandler k h s) k' = handlers_of s k')
         \<and> m_eventQueue (RemoveHandler k h s) = m_eventQueue s
         \<and> ((\<forall>g\<in>set (handlers_of s k).
                \<not> (fst g = fst h \<and> target_type (snd g) = target_type (snd h)))
              \<longrightarrow> m_handlers (RemoveHandler k h s) = m_handlers s
                \<and> invocations (RemoveHandler k h s) = invocations s)"
proof (intro conjI allI impI)
  show "handlers_of (RemoveHandler k h s) k =
      filter (\<lambda>g. \<not> (fst g = fst h \<and> target_type (snd g) = target_type (snd h)))
        (handlers_of s k)"
    using handlers_of_RemoveHandler [OF assms, of k h k] by (simp add: same_element_def)
next
  fix k' :: u32
  assume "k' \<noteq> k"
  then show "handlers_of (RemoveHandler k h s) k' = handlers_of s k'"
    using handlers_of_RemoveHandler [OF assms, of k h k'] by simp
next
  show "m_eventQueue (RemoveHandler k h s) = m_eventQueue s"
    by simp
next
  assume "\<forall>g\<in>set (handlers_of s k).
      \<not> (fst g = fst h \<and> target_type (snd g) = target_type (snd h))"
  then have none: "\<forall>g\<in>set (handlers_of s k). \<not> same_element g h"
    by (simp add: same_element_def)
  show "m_handlers (RemoveHandler k h s) = m_handlers s"
    using assms none by (rule RemoveHandler_no_match)
  show "invocations (RemoveHandler k h s) = invocations s"
    using RemoveHandler_no_match_state [OF assms none]
    by (auto simp add: invocations_cout_update)
qed

text \<open>The example: one handler of priority 5; a removal with priority 6 leaves it in place,
  a removal with priority 5 and a callback of the same type erases it.\<close>

lemma registry_ok_one_handler: "registry_ok one_handler"
  by (simp add: one_handler_def AddHandler_name_def registry_ok_PushEvent
      registry_ok_AddHandler registry_ok_new)

lemma one_handler_handlers:
  "handlers_of one_handler (HashEventString 0 ''PlayerDied'') = [(5, OnPlayerDied)]"
  by (simp add: one_handler_def AddHandler_name_def handlers_of_AddHandler)

theorem RemoveHandler_exact_match_witness:
  "registry_ok one_handler
   \<and> handlers_of one_handler (HashEventString 0 ''PlayerDied'') = [(5, OnPlayerDied)]
   \<and> handlers_of (RemoveHandler (HashEventString 0 ''PlayerDied'') (6, OnPlayerDied) one_handler)
        (HashEventString 0 ''PlayerDied'') = [(5, OnPlayerDied)]
   \<and> m_handlers (RemoveHandler (HashEventString 0 ''PlayerDied'') (6, OnPlayerDied) one_handler)
        = m_handlers one_handler
   \<and> invocations (RemoveHandler (HashEventString 0 ''PlayerDied'') (6, OnPlayerDied) one_handler)
        = invocations one_handler
   \<and> handlers_of (RemoveHandler (HashEventString 0 ''PlayerDied'') (5, OnPlayerDiedPriority) one_handler)
        (HashEventString 0 ''PlayerDied'') = []"
proof -
  have none: "\<forall>g\<in>set (handlers_of one_handler (HashEventString 0 ''PlayerDied'')).
         \<not> (fst g = fst (6 :: int, OnPlayerDied)
            \<and> target_type (snd g) = target_type (snd (6 :: int, OnPlayerDied)))"
    by (simp add: one_handler_handlers)
  show ?thesis
    using none
      RemoveHandler_exact_match [OF registry_ok_one_handler,
        of "HashEventString 0 ''PlayerDied''" "(6, OnPlayerDied)"]
      RemoveHandler_exact_match [OF registry_ok_one_handler,
        of "HashEventString 0 ''PlayerDied''" "(5, OnPlayerDiedPriority)"]
    by (simp add: registry_ok_one_handler one_handler_handlers OnPlayerDied_def
        OnPlayerDiedPriority_def)
qed

section \<open>The order of dispatch\<close>

lemma new_EventManager_queue [simp]: "m_eventQueue (new_EventManager w) = []"
  by (simp add: new_EventManager_def)

lemma registry_ok_three_handlers: "registry_ok three_handlers"
  by (simp add: three_handlers_def AddHandler_name_def registry_ok_PushEvent
      registry_ok_AddHandler registry_ok_new)

text \<open>
  C3. In a pass of the loop the callbacks invoked are those of the handler set of the
  type of the event on top, each once and in the order of the set, and that order is:
  higher priority first, and among equal priorities the callback type that is
  \<^verbatim>\<open>before\<close> the other first. The set does not depend on the order of registration:
  two registrations of handlers that differ in priority or in type commute.
\<close>

theorem handlers_run_by_priority:
  assumes "registry_ok s" and "m_eventQueue s \<noteq> []"
  shows "map fst (invocations s) = handlers_of s (GetType (pq_top EventComparer (m_eventQueue s)))
    \<and> sorted_wrt (\<lambda>a b. fst b < fst a
          \<or> (fst a = fst b \<and> before (target_type (snd a)) (target_type (snd b))))
        (map fst (invocations s))
    \<and> (\<not> (fst h1 = fst h2 \<and> target_type (snd h1) = target_type (snd h2)) \<longrightarrow>
          AddHandler k h1 (AddHandler k h2 s) = AddHandler k h2 (AddHandler k h1 s))"
proof (intro conjI impI)
  let ?hs = "handlers_of s (GetType (pq_top EventComparer (m_eventQueue s)))"
  show run: "map fst (invocations s) = ?hs"
    using invocations_log [OF assms(2)] by simp
  have "sorted_wrt EventHandlerComparer ?hs"
    using assms(1) by (rule registry_ok_handlers_of)
  moreover have "EventHandlerComparer = (\<lambda>a b :: 'a EventHandler.
      fst b < fst a \<or> (fst a = fst b \<and> before (target_type (snd a)) (target_type (snd b))))"
    by (intro ext) (auto simp add: EventHandlerComparer_def)
  ultimately show "sorted_wrt (\<lambda>a b. fst b < fst a
          \<or> (fst a = fst b \<and> before (target_type (snd a)) (target_type (snd b))))
        (map fst (invocations s))"
    by (simp add: run)
next
  assume "\<not> (fst h1 = fst h2 \<and> target_type (snd h1) = target_type (snd h2))"
  then have "\<not> same_element h1 h2"
    by (simp add: same_element_def)
  then have "set_insert EventHandlerComparer h1 (set_insert EventHandlerComparer h2 (handlers_of s k))
      = set_insert EventHandlerComparer h2 (set_insert EventHandlerComparer h1 (handlers_of s k))"
    by (rule set_insert_commute)
  then show "AddHandler k h1 (AddHandler k h2 s) = AddHandler k h2 (AddHandler k h1 s)"
    by (simp add: AddHandler_def handlers_of_def)
qed

text \<open>The example: priorities 5, 1, 10 registered in this order run as 10, 5, 1.\<close>

lemma three_handlers_run: "map (\<lambda>z. fst (fst z)) (invocations three_handlers) = [10, 5, 1]"
  by code_simp

theorem handlers_run_by_priority_witness:
  "registry_ok three_handlers \<and> m_eventQueue three_handlers \<noteq> []
   \<and> map (\<lambda>z. fst (fst z)) (invocations three_handlers) = [10, 5, 1]
   \<and> map fst (invocations three_handlers) = [(10, printer 3), (5, printer 1), (1, printer 2)]
   \<and> AddHandler 7 (1, printer 1) (AddHandler 7 (10, printer 2) three_handlers)
       = AddHandler 7 (10, printer 2) (AddHandler 7 (1, printer 1) three_handlers)"
proof -
  have ne: "m_eventQueue three_handlers \<noteq> []"
    by (simp add: three_handlers_def)
  have hs: "handlers_of three_handlers (GetType (pq_top EventComparer (m_eventQueue three_handlers)))
      = [(10, printer 3), (5, printer 1), (1, printer 2)]"
    by (simp add: three_handlers_def AddHandler_name_def handlers_of_AddHandler pq_top_def
        PlayerDied_def make_Event_def GetType_def EventHandlerComparer_def)
  show ?thesis
    using handlers_run_by_priority [OF registry_ok_three_handlers ne,
        of "(1, printer 1)" "(10, printer 2)" 7]
      registry_ok_three_handlers ne three_handlers_run hs
    by simp
qed

lemma event_keys_differ: "HashEventString 0 ''PlayerMoved'' \<noteq> HashEventString 0 ''PlayerDied''"
  by code_simp

text \<open>
  C4. In every pass of the loop on a non-empty queue the event on top, whose type
  selects the handlers and which the first callback receives, is an element of the queue
  whose priority no queued event exceeds, and every event passed to a callback in that
  pass has a priority that no event queued at the start of the pass exceeds. An event of
  priority 10 pushed before one of priority 5 is dispatched first when the queue is
  drained.
\<close>

theorem top_priority_first:
  assumes "m_eventQueue s \<noteq> []"
  shows "pq_top EventComparer (m_eventQueue s) \<in> set (m_eventQueue s)
    \<and> (\<forall>e\<in>set (m_eventQueue s).
          GetPriorityLevel e \<le> GetPriorityLevel (pq_top EventComparer (m_eventQueue s)))
    \<and> map fst (invocations s) = handlers_of s (GetType (pq_top EventComparer (m_eventQueue s)))
    \<and> (invocations s \<noteq> [] \<longrightarrow> snd (hd (invocations s)) = pq_top EventComparer (m_eventQueue s))
    \<and> (\<forall>z\<in>set (invocations s). \<forall>e\<in>set (m_eventQueue s).
          GetPriorityLevel e \<le> GetPriorityLevel (snd z))
    \<and> (case ProcessEvents two_events of
          None \<Rightarrow> False
        | Some s' \<Rightarrow>
            map (\<lambda>z. GetType (snd z)) (calls s')
              = [HashEventString 0 ''PlayerDied'', HashEventString 0 ''PlayerMoved''])"
proof (intro conjI ballI)
  let ?t = "pq_top EventComparer (m_eventQueue s)"
  show "?t \<in> set (m_eventQueue s)"
    using assms by (rule pq_top_in_set)
  show "GetPriorityLevel e \<le> GetPriorityLevel ?t" if "e \<in> set (m_eventQueue s)" for e
    using that by (rule pq_top_max)
  show "map fst (invocations s) = handlers_of s (GetType ?t)"
    and "invocations s \<noteq> [] \<longrightarrow> snd (hd (invocations s)) = ?t"
    using invocations_log [OF assms] by simp_all
  show "GetPriorityLevel e \<le> GetPriorityLevel (snd z)"
    if "z \<in> set (invocations s)" and "e \<in> set (m_eventQueue s)" for z e
  proof -
    have "GetPriorityLevel e \<le> GetPriorityLevel ?t"
      using that(2) by (rule pq_top_max)
    moreover have "GetPriorityLevel ?t \<le> GetPriorityLevel (snd z)"
      using invocations_log [OF assms] that(1) by blast
    ultimately show ?thesis by simp
  qed
  show "case ProcessEvents two_events of
          None \<Rightarrow> False
        | Some s' \<Rightarrow>
            map (\<lambda>z. GetType (snd z)) (calls s')
              = [HashEventString 0 ''PlayerDied'', HashEventString 0 ''PlayerMoved'']"
    by code_simp
qed

theorem top_priority_first_witness:
  "m_eventQueue two_events = [PlayerDied 10, PlayerMoved 5]
   \<and> pq_top EventComparer (m_eventQueue two_events) = PlayerDied 10
   \<and> handlers_of two_events (GetType (PlayerDied 10)) = [(0, printer 1)]
   \<and> map fst (invocations two_events) = [(0, printer 1)]
   \<and> snd (hd (invocations two_events)) = PlayerDied 10"
proof -
  have q: "m_eventQueue two_events = [PlayerDied 10, PlayerMoved 5]"
    by (simp add: two_events_def AddHandler_name_def)
  then have ne: "m_eventQueue two_events \<noteq> []"
    by simp
  have t: "pq_top EventComparer (m_eventQueue two_events) = PlayerDied 10"
    by (simp add: q pq_top_def EventComparer_def GetPriorityLevel_def PlayerDied_def
        PlayerMoved_def make_Event_def)
  have hs: "handlers_of two_events (GetType (PlayerDied 10)) = [(0, printer 1)]"
    using event_keys_differ
    by (simp add: two_events_def AddHandler_name_def handlers_of_AddHandler PlayerDied_def
        make_Event_def GetType_def)
  show ?thesis
    using top_priority_first [OF ne] q t hs by auto
qed

section \<open>Duplicate registration and the identity of a handler\<close>

text \<open>
  C7. Registering a handler whose priority and callback type equal those of a handler
  already in the set of the key changes nothing, so registering the same handler twice
  is registering it once; and a pass that dispatches an event of that type invokes
  exactly one handler of that priority and type.
\<close>

theorem AddHandler_duplicate_noop:
  assumes "registry_ok s" and "g \<in> set (handlers_of s k)"
    and "fst h = fst g" and "target_type (snd h) = target_type (snd g)"
  shows "AddHandler k h s = s
    \<and> AddHandler k g (AddHandler k g s) = AddHandler k g s
    \<and> (m_eventQueue s \<noteq> [] \<and> GetType (pq_top EventComparer (m_eventQueue s)) = k \<longrightarrow>
          length (filter (\<lambda>z. fst (fst z) = fst h \<and> target_type (snd (fst z)) = target_type (snd h))
                    (invocations (AddHandler k h s))) = 1)"
proof (intro conjI impI)
  have same: "same_element g h"
    using assms(3,4) by (simp add: same_element_def)
  show noop: "AddHandler k h s = s"
    using assms(1,2) same by (rule AddHandler_present)
  have "same_element g g"
    by (simp add: same_element_def)
  with assms(1,2) have "AddHandler k g s = s"
    by (rule AddHandler_present)
  then show "AddHandler k g (AddHandler k g s) = AddHandler k g s"
    by simp
  assume top: "m_eventQueue s \<noteq> [] \<and> GetType (pq_top EventComparer (m_eventQueue s)) = k"
  then have run: "map fst (invocations s) = handlers_of s k"
    using invocations_log [of s] by auto
  have "sorted_wrt EventHandlerComparer (handlers_of s k)"
    using assms(1) by (rule registry_ok_handlers_of)
  then have "length (filter (\<lambda>g. same_element g h) (handlers_of s k)) = 1"
    using assms(2) same by (rule sorted_same_once)
  then have "length (filter (\<lambda>g. same_element g h) (map fst (invocations s))) = 1"
    by (simp only: run)
  then have "length (filter (\<lambda>z. same_element (fst z) h) (invocations s)) = 1"
    by (simp add: filter_map comp_def)
  then show "length (filter (\<lambda>z. fst (fst z) = fst h \<and> target_type (snd (fst z)) = target_type (snd h))
                    (invocations (AddHandler k h s))) = 1"
    by (simp add: noop same_element_def)
qed

theorem AddHandler_duplicate_noop_witness:
  "registry_ok one_handler
   \<and> handlers_of one_handler (HashEventString 0 ''PlayerDied'') = [(5, OnPlayerDied)]
   \<and> AddHandler (HashEventString 0 ''PlayerDied'') (5, OnPlayerDied) one_handler = one_handler
   \<and> m_eventQueue one_handler = [PlayerDied 0]
   \<and> map fst (invocations
        (AddHandler (HashEventString 0 ''PlayerDied'') (5, OnPlayerDied) one_handler))
       = [(5, OnPlayerDied)]"
proof -
  let ?k = "HashEventString 0 ''PlayerDied''"
  have g: "(5, OnPlayerDied) \<in> set (handlers_of one_handler ?k)"
    by (simp add: one_handler_handlers)
  have q: "m_eventQueue one_handler = [PlayerDied 0]"
    by (simp add: one_handler_def AddHandler_name_def)
  have noop: "AddHandler ?k (5, OnPlayerDied) one_handler = one_handler"
    using AddHandler_duplicate_noop [OF registry_ok_one_handler g, of "(5, OnPlayerDied)"]
    by simp
  have "map fst (invocations one_handler) = handlers_of one_handler ?k"
    using invocations_log [of one_handler]
    by (simp add: q pq_top_def PlayerDied_def make_Event_def GetType_def)
  then show ?thesis
    using noop q registry_ok_one_handler by (simp add: one_handler_handlers)
qed

text \<open>
  C10. Two handlers are the same element of a set (neither is ordered before the other)
  exactly when their priorities are equal and their callbacks have the same
  \<^verbatim>\<open>target_type\<close>; the callable stored plays no part. So registering a second
  handler of the same priority with another callback of the same type changes nothing,
  and \<^verbatim>\<open>RemoveHandler\<close> with any handler of that priority and type erases the
  registered one.
\<close>

theorem registry_element_is_priority_and_type:
  "((\<not> EventHandlerComparer a b \<and> \<not> EventHandlerComparer b a)
      = (fst a = fst b \<and> target_type (snd a) = target_type (snd b)))
   \<and> (registry_ok s \<and> fst h2 = fst h1 \<and> target_type (snd h2) = target_type (snd h1) \<longrightarrow>
        AddHandler k h2 (AddHandler k h1 s) = AddHandler k h1 s
        \<and> (\<forall>g\<in>set (handlers_of (RemoveHandler k h2 (AddHandler k h1 s)) k).
              \<not> (fst g = fst h1 \<and> target_type (snd g) = target_type (snd h1)))
        \<and> (\<forall>g\<in>set (handlers_of s k).
              fst g = fst h2 \<and> target_type (snd g) = target_type (snd h2) \<longrightarrow>
              g \<notin> set (handlers_of (RemoveHandler k h2 s) k)))"
proof (intro conjI impI ballI)
  show "(\<not> EventHandlerComparer a b \<and> \<not> EventHandlerComparer b a)
      = (fst a = fst b \<and> target_type (snd a) = target_type (snd b))"
    using comparer_equiv [of a b] by (simp add: same_element_def)
next
  assume a: "registry_ok s \<and> fst h2 = fst h1 \<and> target_type (snd h2) = target_type (snd h1)"
  then have ok: "registry_ok s" and same: "same_element h1 h2"
    by (simp_all add: same_element_def)
  let ?s1 = "AddHandler k h1 s"
  have ok1: "registry_ok ?s1"
    using ok by (rule registry_ok_AddHandler)
  obtain g where g: "g \<in> set (handlers_of ?s1 k)" and gh1: "same_element g h1"
    using set_insert_has [of h1 "handlers_of s k"] by (auto simp add: handlers_of_AddHandler)
  have "same_element g h2"
    using gh1 same by (simp add: same_element_def)
  with ok1 g show "AddHandler k h2 ?s1 = ?s1"
    by (rule AddHandler_present)
  show "\<not> (fst g' = fst h1 \<and> target_type (snd g') = target_type (snd h1))"
    if "g' \<in> set (handlers_of (RemoveHandler k h2 ?s1) k)" for g'
    using that same handlers_of_RemoveHandler [OF ok1, of k h2 k]
    by (auto simp add: same_element_def)
  show "g' \<notin> set (handlers_of (RemoveHandler k h2 s) k)"
    if "g' \<in> set (handlers_of s k)"
      and "fst g' = fst h2 \<and> target_type (snd g') = target_type (snd h2)" for g'
    using that handlers_of_RemoveHandler [OF ok, of k h2 k]
    by (auto simp add: same_element_def)
qed

theorem registry_element_is_priority_and_type_witness:
  "registry_ok one_handler
   \<and> target OnPlayerDiedPriority \<noteq> target OnPlayerDied
   \<and> handlers_of one_handler (HashEventString 0 ''PlayerDied'') = [(5, OnPlayerDied)]
   \<and> AddHandler (HashEventString 0 ''PlayerDied'') (5, OnPlayerDiedPriority)
         (AddHandler (HashEventString 0 ''PlayerDied'') (5, OnPlayerDied) one_handler)
       = AddHandler (HashEventString 0 ''PlayerDied'') (5, OnPlayerDied) one_handler
   \<and> (5, OnPlayerDied) \<notin> set (handlers_of
         (RemoveHandler (HashEventString 0 ''PlayerDied'') (5, OnPlayerDiedPriority) one_handler)
         (HashEventString 0 ''PlayerDied''))"
proof -
  let ?k = "HashEventString 0 ''PlayerDied''"
  have differ: "target OnPlayerDiedPriority \<noteq> target OnPlayerDied"
  proof
    assume "target OnPlayerDiedPriority = target OnPlayerDied"
    then have "target OnPlayerDiedPriority (PlayerDied 0) [] = target OnPlayerDied (PlayerDied 0) []"
      by simp
    then show False
      by (simp add: OnPlayerDied_def OnPlayerDiedPriority_def)
  qed
  have types: "fst (5 :: int, OnPlayerDiedPriority) = fst (5 :: int, OnPlayerDied)
      \<and> target_type (snd (5 :: int, OnPlayerDiedPriority)) = target_type (snd (5 :: int, OnPlayerDied))"
    by (simp add: OnPlayerDied_def OnPlayerDiedPriority_def)
  show ?thesis
    using registry_element_is_priority_and_type
        [of "(5, OnPlayerDied)" "(5, OnPlayerDiedPriority)" one_handler
          "(5, OnPlayerDiedPriority)" "(5, OnPlayerDied)" ?k]
      registry_ok_one_handler differ types
    by (simp add: one_handler_handlers)
qed

section \<open>Draining the queue\<close>

lemma no_push_fold_invoke:
  assumes "\<forall>h\<in>set hs. \<forall>e w. fst (target (snd h) e w) = []"
  shows "m_eventQueue (fold invoke hs s) = m_eventQueue s"
  using assms by (induction hs arbitrary: s) (simp_all add: invoke_fields)

lemma no_push_body:
  assumes "no_push s"
  shows "m_eventQueue (ProcessEvents_body s) = pq_pop EventComparer (m_eventQueue s)"
    and "no_push (ProcessEvents_body s)"
proof -
  show "m_eventQueue (ProcessEvents_body s) = pq_pop EventComparer (m_eventQueue s)"
  proof (cases "m_handlers s (GetType (pq_top EventComparer (m_eventQueue s)))")
    case None
    then show ?thesis by (simp add: ProcessEvents_body_def)
  next
    case (Some hs)
    then have "\<forall>h\<in>set hs. \<forall>e w. fst (target (snd h) e w) = []"
      using assms unfolding no_push_def by blast
    then have "m_eventQueue (fold invoke hs s) = m_eventQueue s"
      by (rule no_push_fold_invoke)
    with Some show ?thesis by (simp add: ProcessEvents_body_def)
  qed
  show "no_push (ProcessEvents_body s)"
    using assms by (simp add: no_push_def)
qed

text \<open>
  If no registered callback pushes events, \<^verbatim>\<open>ProcessEvents\<close> returns, after as many
  passes as there are events in the queue.
\<close>

lemma ProcessEvents_returns:
  "no_push s \<Longrightarrow> \<exists>s'. ProcessEvents s = Some s'"
proof (induction "length (m_eventQueue s)" arbitrary: s)
  case 0
  then show ?case by (simp add: ProcessEvents.simps)
next
  case (Suc n)
  then have ne: "m_eventQueue s \<noteq> []" by auto
  have "length (m_eventQueue (ProcessEvents_body s)) = n"
    using Suc.hyps(2) Suc.prems ne by (simp add: no_push_body(1) length_pq_pop)
  then have "\<exists>s'. ProcessEvents (ProcessEvents_body s) = Some s'"
    using Suc.hyps(1) Suc.prems no_push_body(2) by metis
  then show ?case
    using ne by (subst ProcessEvents.simps) simp
qed

lemma ProcessEvents_never_returns:
  assumes step: "\<And>s. I s \<Longrightarrow> m_eventQueue s \<noteq> [] \<and> I (ProcessEvents_body s)"
    and start: "I s"
  shows "ProcessEvents s = None"
proof (rule ccontr)
  assume "ProcessEvents s \<noteq> None"
  then obtain s' where "ProcessEvents s = Some s'"
    by auto
  then have "\<not> I s"
  proof (induction rule: ProcessEvents.raw_induct [rotated, consumes 1, case_names step])
    case (step rec s s')
    show ?case
    proof
      assume i: "I s"
      then have "m_eventQueue s \<noteq> []" and b: "I (ProcessEvents_body s)"
        using assms(1) by blast+
      then have "rec (ProcessEvents_body s) = Some s'"
        using step(2) by simp
      then have "\<not> I (ProcessEvents_body s)"
        by (rule step(1))
      with b show False by simp
    qed
  qed
  with start show False by simp
qed

text \<open>
  The hazard of the design: with a handler that pushes an event of its own type on every
  run, the call does not return.
\<close>

lemma ProcessEvents_flooding: "ProcessEvents flooding = None"
proof (rule ProcessEvents_never_returns
    [where I = "\<lambda>s. m_handlers s = m_handlers flooding \<and> m_eventQueue s = [PlayerMoved 5]"])
  show "m_handlers flooding = m_handlers flooding \<and> m_eventQueue flooding = [PlayerMoved 5]"
    by (simp add: flooding_def AddHandler_name_def)
next
  fix s :: "nat list EventManager"
  assume i: "m_handlers s = m_handlers flooding \<and> m_eventQueue s = [PlayerMoved 5]"
  have hs: "m_handlers flooding (GetType (PlayerMoved 5)) =
      Some [(0, \<lparr>target_type = TypeInfo 1, target = (\<lambda>event w. ([PlayerMoved 5], w @ [1]))\<rparr>)]"
    by (simp add: flooding_def AddHandler_name_def AddHandler_def PlayerMoved_def make_Event_def
        GetType_def)
  have top: "pq_top EventComparer [PlayerMoved 5] = PlayerMoved 5"
    by (simp add: pq_top_def)
  have pop: "pq_pop EventComparer [PlayerMoved 5, PlayerMoved 5] = [PlayerMoved 5]"
    by (simp add: pq_pop_def EventComparer_def)
  have "m_eventQueue (ProcessEvents_body s) = [PlayerMoved 5]"
    using i hs top pop
    by (simp add: ProcessEvents_body_def invoke_def Let_def)
  then show "m_eventQueue s \<noteq> [] \<and>
      (m_handlers (ProcessEvents_body s) = m_handlers flooding
       \<and> m_eventQueue (ProcessEvents_body s) = [PlayerMoved 5])"
    using i by simp
qed

text \<open>
  C2. Whenever a call of \<^verbatim>\<open>ProcessEvents\<close> returns, the queue is empty in the state
  it returns, whatever the queue held before and whatever the callbacks pushed during
  the call.
\<close>

theorem ProcessEvents_drains:
  assumes "ProcessEvents s = Some s'"
  shows "m_eventQueue s' = []"
  using assms
proof (induction rule: ProcessEvents.raw_induct [rotated, consumes 1, case_names step])
  case (step rec s s')
  then show ?case
    by (cases "m_eventQueue s = []") auto
qed

text \<open>
  The example: the handler of \<open>PlayerMoved\<close> pushes a \<open>PlayerDied\<close> event of lower
  priority while it runs; the call returns, and the event pushed has been dispatched in
  the same call.
\<close>

lemma pushing_handler_1_returns:
  "case ProcessEvents (pushing_handler 1) of
     None \<Rightarrow> False
   | Some s' \<Rightarrow>
       dispatched s' = [(0, HashEventString 0 ''PlayerMoved''), (0, HashEventString 0 ''PlayerDied'')]
       \<and> captured s' = [1, 2]"
  by code_simp

theorem ProcessEvents_drains_witness:
  "\<exists>s'. ProcessEvents (pushing_handler 1) = Some s'
     \<and> dispatched s' = [(0, HashEventString 0 ''PlayerMoved''), (0, HashEventString 0 ''PlayerDied'')]
     \<and> m_eventQueue s' = []"
proof -
  obtain s' where s': "ProcessEvents (pushing_handler 1) = Some s'"
    and d: "dispatched s' = [(0, HashEventString 0 ''PlayerMoved''), (0, HashEventString 0 ''PlayerDied'')]"
    using pushing_handler_1_returns by (cases "ProcessEvents (pushing_handler 1)") auto
  from ProcessEvents_drains [OF s'] s' d show ?thesis by blast
qed

text \<open>
  C1 fails on the code. \<^verbatim>\<open>m_eventQueue.pop()\<close> removes whatever is on top of the
  queue after the handlers have run. Here one \<open>PlayerMoved\<close> event of priority 5 is
  queued and its handler pushes, on its first run, a \<open>PlayerDied\<close> event of priority
  10: the pop removes the new event, which is never dispatched, the \<open>PlayerMoved\<close>
  event stays queued, and its handler is invoked for it a second time. The handler of
  \<open>PlayerDied\<close> (it would print line 2) never runs.
\<close>

theorem ProcessEvents_dispatches_twice:
  "case ProcessEvents (pushing_handler 10) of
     None \<Rightarrow> False
   | Some s' \<Rightarrow>
       dispatched s' = [(0, HashEventString 0 ''PlayerMoved''), (0, HashEventString 0 ''PlayerMoved'')]
       \<and> captured s' = [1, 1] \<and> m_eventQueue s' = []"
  by code_simp

end
